theory Spec2Isabelle
  imports Main "HOL-Library.Word"
begin

section \<open>The vsoc shared-memory layout planner (vsoc_memory.cpp)\<close>

text \<open>
  \<open>uint32_t\<close> is a 32-bit word. \<open>size_t\<close> is modelled as a 64-bit word: the layout
  code is meant for the host build (\<open>VSoCMemoryLayout::Get\<close> is fatal on the guest). Every
  \<open>size_t\<close> that the planner stores in a region went through \<open>AlignToPageSize\<close>, whose
  parameter and result are \<open>uint32_t\<close>, so the stored values are the same with a 32-bit
  \<open>size_t\<close>.
\<close>

type_synonym uint32_t = "32 word"
type_synonym size_t = "64 word"

text \<open>
  What the planner takes from outside the translation unit: the page size that
  \<open>sysconf(_SC_PAGESIZE)\<close> reports (kept in a \<open>static uint32_t\<close>), and the sizes, macros
  and version numbers of \<open>uapi/vsoc_shm.h\<close>, which is not among the sources. They are
  parameters of the model. \<open>VSOC_REGION_WHOLE\<close> is the macro's value as it compares with a
  \<open>size_t\<close> index.
\<close>

record platform =
  page_size :: uint32_t
  sizeof_vsoc_shm_layout_descriptor :: size_t
  sizeof_vsoc_device_region :: size_t
  VSOC_REGION_WHOLE :: nat
  VSOC_DEVICE_NAME_SZ :: nat
  CURRENT_VSOC_LAYOUT_MAJOR_VERSION :: nat
  CURRENT_VSOC_LAYOUT_MINOR_VERSION :: nat

text \<open>
  \<open>offset += x\<close> with \<open>offset\<close> a \<open>uint32_t\<close> and \<open>x\<close> a \<open>size_t\<close>: the sum is taken in
  \<open>size_t\<close> and converted back, which keeps its low 32 bits. Passing a \<open>size_t\<close> where a
  \<open>uint32_t\<close> parameter is expected converts the same way (\<open>ucast\<close>).
\<close>

definition plus_assign :: "uint32_t \<Rightarrow> size_t \<Rightarrow> uint32_t" where
  "plus_assign offset x = ucast ((ucast offset :: size_t) + x)"

text \<open>
  \<open>AlignToPageSize\<close>: \<open>((val + (page_size - 1)) / page_size) * page_size\<close> on \<open>uint32_t\<close>.
  The page size that \<open>sysconf\<close> reports is never 0; the source would trap in the division
  there, where the division of HOL gives 0.
\<close>

definition AlignToPageSize :: "platform \<Rightarrow> uint32_t \<Rightarrow> uint32_t" where
  "AlignToPageSize cfg val =
     ((val + (page_size cfg - 1)) div page_size cfg) * page_size cfg"

text \<open>
  \<open>AlignToPowerOf2\<close>: the doubling loop, on \<open>uint32_t\<close>. The loop need not end, so it is a
  partial function: \<open>None\<close> is a call that never returns.
\<close>

partial_function (option) AlignToPowerOf2_loop :: "uint32_t \<Rightarrow> uint32_t \<Rightarrow> uint32_t option" where
  "AlignToPowerOf2_loop power_of_2 val =
     (if power_of_2 < val then AlignToPowerOf2_loop (power_of_2 * 2) val
      else Some power_of_2)"

declare AlignToPowerOf2_loop.simps [code]

definition AlignToPowerOf2 :: "uint32_t \<Rightarrow> uint32_t option" where
  "AlignToPowerOf2 val = AlignToPowerOf2_loop 1 val"

subsection \<open>Regions\<close>

text \<open>
  \<open>VSoCRegionLayoutImpl\<close>. Names are \<open>const char*\<close> in the source and the name-to-index
  map compares them as pointers; the region names are the \<open>region_name\<close> constants of the
  layout classes, one object per name, so the model identifies a name with its text.
  \<open>managed_by\<close> is \<open>None\<close> for \<open>nullptr\<close>. The signal-table log sizes are \<open>int\<close>s used as
  shift counts; the model takes them as naturals (a shift by a negative count or by 31 and
  more is undefined in the source).
\<close>

record VSoCRegionLayoutImpl =
  region_name :: string
  layout_size :: size_t
  guest_to_host_signal_table_log_size :: nat
  host_to_guest_signal_table_log_size :: nat
  managed_by :: "string option"
  begin_offset :: uint32_t
  region_size :: size_t

text \<open>\<open>sizeof(uint32_t)\<close>, a \<open>size_t\<close>.\<close>

definition sizeof_uint32_t :: size_t where
  "sizeof_uint32_t = 4"

text \<open>\<open>(1 << log_size) * sizeof(uint32_t)\<close>: an \<open>int\<close> shift, widened to \<open>size_t\<close>.\<close>

definition signal_table_bytes :: "nat \<Rightarrow> size_t" where
  "signal_table_bytes log_size = push_bit log_size 1 * sizeof_uint32_t"

definition GetOffsetOfRegionData :: "VSoCRegionLayoutImpl \<Rightarrow> uint32_t" where
  "GetOffsetOfRegionData r =
     (let offset = 0;
          offset = plus_assign offset (signal_table_bytes (guest_to_host_signal_table_log_size r));
          offset = plus_assign offset (signal_table_bytes (host_to_guest_signal_table_log_size r));
          offset = plus_assign offset (2 * sizeof_uint32_t)
      in offset)"

definition GetMinRegionSize :: "platform \<Rightarrow> VSoCRegionLayoutImpl \<Rightarrow> size_t" where
  "GetMinRegionSize cfg r =
     (let size = GetOffsetOfRegionData r;
          size = plus_assign size (layout_size r);
          size = AlignToPageSize cfg size
      in ucast size)"

text \<open>
  The constructor of a region, as \<open>ValidateAndBuildLayout<R>\<close> calls it with
  \<open>R::region_name\<close> and \<open>sizeof(R)\<close>: the size starts as the minimum size, the begin offset
  as 0.
\<close>

definition ValidateAndBuildLayout ::
  "platform \<Rightarrow> string \<times> size_t \<Rightarrow> nat \<Rightarrow> nat \<Rightarrow> string option \<Rightarrow> VSoCRegionLayoutImpl" where
  "ValidateAndBuildLayout cfg R g_to_h_signal_table_log_size h_to_g_signal_table_log_size mgr =
     (let r = \<lparr> region_name = fst R, layout_size = snd R,
                guest_to_host_signal_table_log_size = g_to_h_signal_table_log_size,
                host_to_guest_signal_table_log_size = h_to_g_signal_table_log_size,
                managed_by = mgr, begin_offset = 0, region_size = 0 \<rparr>
      in r\<lparr> region_size := GetMinRegionSize cfg r \<rparr>)"

subsection \<open>The memory layout\<close>

text \<open>\<open>LOG(FATAL)\<close> ends the process; \<open>std::map::at\<close> throws on a missing key.\<close>

datatype fatal =
    UsedForMoreThanOneRegion string
  | ManagedByUnknownRegion string string
  | OffsetOfRegionDataTooSmall string
  | OwnerIsRegionWhole string string
  | MapAtOutOfRange string

text \<open>
  The fields \<open>regions_\<close>, \<open>region_idx_by_name_\<close> and \<open>device_size_\<close> of the class, without
  the trailing underscore.
\<close>

record VSoCMemoryLayoutImpl =
  regions :: "VSoCRegionLayoutImpl list"
  region_idx_by_name :: "string \<rightharpoonup> nat"
  device_size :: uint32_t

fun GetNameToIndexMap_loop ::
  "VSoCRegionLayoutImpl list \<Rightarrow> nat \<Rightarrow> (string \<rightharpoonup> nat) \<Rightarrow> fatal + (string \<rightharpoonup> nat)" where
  "GetNameToIndexMap_loop [] index result = Inr result"
| "GetNameToIndexMap_loop (r # rs) index result =
     (if result (region_name r) \<noteq> None then Inl (UsedForMoreThanOneRegion (region_name r))
      else GetNameToIndexMap_loop rs (index + 1) (result(region_name r \<mapsto> index)))"

definition GetNameToIndexMap :: "VSoCRegionLayoutImpl list \<Rightarrow> fatal + (string \<rightharpoonup> nat)" where
  "GetNameToIndexMap rs = GetNameToIndexMap_loop rs 0 Map.empty"

text \<open>The constructor's first loop: every \<open>managed_by\<close> must be a key of the finished map.\<close>

fun check_managed_by :: "(string \<rightharpoonup> nat) \<Rightarrow> VSoCRegionLayoutImpl list \<Rightarrow> fatal option" where
  "check_managed_by idx [] = None"
| "check_managed_by idx (r # rs) =
     (case managed_by r of
        None \<Rightarrow> check_managed_by idx rs
      | Some m \<Rightarrow>
          if idx m = None then Some (ManagedByUnknownRegion (region_name r) m)
          else check_managed_by idx rs)"

text \<open>
  \<open>UpdateRegionOffsetsAndDeviceSize\<close>: the loop sets the begin offsets from \<open>index\<close> on, then
  the device size is \<open>AlignToPowerOf2\<close> of the final offset.
\<close>

function UpdateRegionOffsets_loop ::
  "VSoCRegionLayoutImpl list \<Rightarrow> uint32_t \<Rightarrow> nat \<Rightarrow> VSoCRegionLayoutImpl list \<times> uint32_t" where
  "UpdateRegionOffsets_loop rs offset index =
     (if index < length rs then
        UpdateRegionOffsets_loop
          (rs[index := (rs ! index)\<lparr>begin_offset := offset\<rparr>])
          (plus_assign offset (region_size (rs ! index)))
          (index + 1)
      else (rs, offset))"
  by pat_completeness auto
termination
  by (relation "measure (\<lambda>(rs, offset, index). length rs - index)") auto

declare UpdateRegionOffsets_loop.simps [simp del]

definition UpdateRegionOffsetsAndDeviceSize ::
  "VSoCMemoryLayoutImpl \<Rightarrow> uint32_t \<Rightarrow> nat \<Rightarrow> VSoCMemoryLayoutImpl option" where
  "UpdateRegionOffsetsAndDeviceSize L offset index =
     (case UpdateRegionOffsets_loop (regions L) offset index of
        (rs, offset') \<Rightarrow>
          (case AlignToPowerOf2 offset' of
             None \<Rightarrow> None
           | Some d \<Rightarrow> Some (L\<lparr>regions := rs, device_size := d\<rparr>)))"

text \<open>
  The constructor. \<open>None\<close>: it never returns; \<open>Some (Inl e)\<close>: it ends the process with
  \<open>LOG(FATAL)\<close>; \<open>Some (Inr L)\<close>: the layout.
\<close>

definition VSoCMemoryLayoutImpl_ctor ::
  "platform \<Rightarrow> VSoCRegionLayoutImpl list \<Rightarrow> (fatal + VSoCMemoryLayoutImpl) option" where
  "VSoCMemoryLayoutImpl_ctor cfg rs =
     (case GetNameToIndexMap rs of
        Inl e \<Rightarrow> Some (Inl e)
      | Inr idx \<Rightarrow>
          (case check_managed_by idx rs of
             Some e \<Rightarrow> Some (Inl e)
           | None \<Rightarrow>
               (let offset = 0;
                    offset = plus_assign offset (sizeof_vsoc_shm_layout_descriptor cfg);
                    offset = plus_assign offset
                               (of_nat (length rs) * sizeof_vsoc_device_region cfg);
                    offset = AlignToPageSize cfg offset
                in map_option Inr
                     (UpdateRegionOffsetsAndDeviceSize
                        \<lparr>regions = rs, region_idx_by_name = idx, device_size = 0\<rparr>
                        offset 0))))"

definition GetMemoryFileSize :: "VSoCMemoryLayoutImpl \<Rightarrow> uint32_t" where
  "GetMemoryFileSize L = device_size L"

text \<open>
  \<open>ResizeRegion\<close>. The result pairs the returned \<open>bool\<close> with the layout after the call;
  \<open>None\<close> is a call that never returns. \<open>regions_[index]\<close> is read at an index taken from
  the map, which the constructor fills with positions of \<open>regions_\<close>.
\<close>

definition ResizeRegion ::
  "platform \<Rightarrow> VSoCMemoryLayoutImpl \<Rightarrow> string \<Rightarrow> size_t \<Rightarrow> (bool \<times> VSoCMemoryLayoutImpl) option" where
  "ResizeRegion cfg L name new_min_size =
     (case region_idx_by_name L name of
        None \<Rightarrow> Some (False, L)
      | Some index \<Rightarrow>
          (let region = regions L ! index;
               min_required_size = GetMinRegionSize cfg region;
               new_min_size = (ucast (AlignToPageSize cfg (ucast new_min_size)) :: size_t)
           in if new_min_size < min_required_size then Some (False, L)
              else
                (let region = region\<lparr>region_size := new_min_size\<rparr>;
                     L' = L\<lparr>regions := (regions L)[index := region]\<rparr>;
                     offset = (ucast (begin_offset region) :: size_t) + region_size region
                 in map_option (Pair True)
                      (UpdateRegionOffsetsAndDeviceSize L' (ucast offset) (index + 1)))))"

subsection \<open>Writing the layout to shared memory\<close>

text \<open>
  \<open>vsoc_signal_table_layout\<close>, \<open>vsoc_device_region\<close> and \<open>vsoc_shm_layout_descriptor\<close> are
  declared in \<open>uapi/vsoc_shm.h\<close>, which is not among the sources. The records have the
  fields that \<open>WriteLayout\<close> assigns. The offsets of a descriptor are 32-bit fields, as
  every offset that the planner computes is; the version numbers, the region count and the
  manager index are small numbers and are kept as naturals. The field \<open>managed_by\<close> of a
  descriptor is \<open>managed_by_field\<close> here and the field \<open>size\<close> of the header is
  \<open>size_field\<close>, since \<open>managed_by\<close> and \<open>size\<close> are taken. The descriptor-table offset of
  the header holds \<open>sizeof(vsoc_shm_layout_descriptor)\<close>, a parameter of the model.
\<close>

record vsoc_signal_table_layout =
  num_nodes_lg2 :: nat
  futex_uaddr_table_offset :: uint32_t
  interrupt_signalled_offset :: uint32_t

record vsoc_device_region =
  current_version :: nat
  min_compatible_version :: nat
  region_begin_offset :: uint32_t
  region_end_offset :: uint32_t
  offset_of_region_data :: uint32_t
  device_name :: string
  guest_to_host_signal_table :: vsoc_signal_table_layout
  host_to_guest_signal_table :: vsoc_signal_table_layout
  managed_by_field :: nat

record vsoc_shm_layout_descriptor =
  major_version :: nat
  minor_version :: nat
  size_field :: uint32_t
  region_count :: nat
  vsoc_region_desc_offset :: size_t

text \<open>
  The shared memory as \<open>WriteLayout\<close> sees it: the header, and right after it the array of
  region descriptors.
\<close>

record shared_memory =
  header :: vsoc_shm_layout_descriptor
  region_descriptions :: "vsoc_device_region list"

definition WriteSignalTableDescription ::
  "vsoc_signal_table_layout \<Rightarrow> uint32_t \<Rightarrow> nat \<Rightarrow> vsoc_signal_table_layout \<times> uint32_t" where
  "WriteSignalTableDescription layout offset log_size =
     (let layout = layout\<lparr>num_nodes_lg2 := log_size\<rparr>;
          layout = layout\<lparr>futex_uaddr_table_offset := offset\<rparr>;
          offset = plus_assign offset (signal_table_bytes log_size);
          layout = layout\<lparr>interrupt_signalled_offset := offset\<rparr>;
          offset = plus_assign offset sizeof_uint32_t
      in (layout, offset))"

text \<open>
  \<open>WriteRegionDescription\<close>. The end offset is the sum of the \<open>uint32_t\<close> begin offset and
  the \<open>size_t\<close> region size, taken in \<open>size_t\<close>; the 32-bit field keeps its low 32 bits.
  The name: \<open>strncpy\<close> of at most \<open>VSOC_DEVICE_NAME_SZ - 1\<close> characters, then the
  terminating \<open>'\0'\<close>, read back as a C string.
\<close>

definition WriteRegionDescription ::
  "platform \<Rightarrow> vsoc_device_region \<Rightarrow> VSoCRegionLayoutImpl \<Rightarrow> fatal + vsoc_device_region" where
  "WriteRegionDescription cfg shmem_region_desc region =
     (let d = shmem_region_desc\<lparr>current_version := 0, min_compatible_version := 0\<rparr>;
          d = d\<lparr>region_begin_offset := begin_offset region\<rparr>;
          d = d\<lparr>region_end_offset :=
                 ucast ((ucast (begin_offset region) :: size_t) + region_size region)\<rparr>;
          d = d\<lparr>offset_of_region_data := GetOffsetOfRegionData region\<rparr>;
          d = d\<lparr>device_name := take (VSOC_DEVICE_NAME_SZ cfg - 1) (region_name region)\<rparr>;
          offset = 0;
          g2h = WriteSignalTableDescription (guest_to_host_signal_table d) offset
                  (guest_to_host_signal_table_log_size region);
          d = d\<lparr>guest_to_host_signal_table := fst g2h\<rparr>;
          offset = snd g2h;
          h2g = WriteSignalTableDescription (host_to_guest_signal_table d) offset
                  (host_to_guest_signal_table_log_size region);
          d = d\<lparr>host_to_guest_signal_table := fst h2g\<rparr>;
          offset = snd h2g
      in if offset > offset_of_region_data d
         then Inl (OffsetOfRegionDataTooSmall (region_name region))
         else Inr d)"

function WriteLayout_loop ::
  "platform \<Rightarrow> VSoCMemoryLayoutImpl \<Rightarrow> vsoc_device_region list \<Rightarrow> nat
     \<Rightarrow> fatal + vsoc_device_region list" where
  "WriteLayout_loop cfg L descs idx =
     (if idx < length (regions L) then
        (case WriteRegionDescription cfg (descs ! idx) (regions L ! idx) of
           Inl e \<Rightarrow> Inl e
         | Inr d \<Rightarrow>
             (case managed_by (regions L ! idx) of
                Some m \<Rightarrow>
                  (case region_idx_by_name L m of
                     None \<Rightarrow> Inl (MapAtOutOfRange m)
                   | Some manager_idx \<Rightarrow>
                       if manager_idx = VSOC_REGION_WHOLE cfg
                       then Inl (OwnerIsRegionWhole (region_name (regions L ! idx)) m)
                       else WriteLayout_loop cfg L
                              (descs[idx := d\<lparr>managed_by_field := manager_idx\<rparr>]) (idx + 1))
              | None \<Rightarrow>
                  WriteLayout_loop cfg L
                    (descs[idx := d\<lparr>managed_by_field := VSOC_REGION_WHOLE cfg\<rparr>]) (idx + 1)))
      else Inr descs)"
  by pat_completeness auto
termination
  by (relation "measure (\<lambda>(cfg, L, descs, idx). length (regions L) - idx)") auto

declare WriteLayout_loop.simps [simp del]

text \<open>
  \<open>WriteLayout\<close>. \<open>Inl e\<close>: the process ended with \<open>LOG(FATAL)\<close> (or with the exception of
  \<open>std::map::at\<close>); \<open>Inr m\<close>: the memory after the call. The memory holds at least one
  descriptor per region.
\<close>

definition WriteLayout ::
  "platform \<Rightarrow> VSoCMemoryLayoutImpl \<Rightarrow> shared_memory \<Rightarrow> fatal + shared_memory" where
  "WriteLayout cfg L mem =
     (let h = header mem;
          h = h\<lparr>major_version := CURRENT_VSOC_LAYOUT_MAJOR_VERSION cfg\<rparr>;
          h = h\<lparr>minor_version := CURRENT_VSOC_LAYOUT_MINOR_VERSION cfg\<rparr>;
          h = h\<lparr>size_field := GetMemoryFileSize L\<rparr>;
          h = h\<lparr>region_count := length (regions L)\<rparr>;
          h = h\<lparr>vsoc_region_desc_offset := sizeof_vsoc_shm_layout_descriptor cfg\<rparr>
      in case WriteLayout_loop cfg L (region_descriptions mem) 0 of
           Inl e \<Rightarrow> Inl e
         | Inr descs \<Rightarrow> Inr \<lparr>header = h, region_descriptions = descs\<rparr>)"

text \<open>
  The layouts a process can hold: the constructor's result on regions built by
  \<open>ValidateAndBuildLayout\<close>, and what a \<open>ResizeRegion\<close> that returned \<open>true\<close> leaves.
\<close>

inductive reachable :: "platform \<Rightarrow> VSoCMemoryLayoutImpl \<Rightarrow> bool" for cfg :: platform where
  constructed:
    "VSoCMemoryLayoutImpl_ctor cfg
       (map (\<lambda>(R, g, h, m). ValidateAndBuildLayout cfg R g h m) specs) = Some (Inr L)
     \<Longrightarrow> reachable cfg L"
| resized:
    "reachable cfg L \<Longrightarrow> ResizeRegion cfg L name new_min_size = Some (True, L')
     \<Longrightarrow> reachable cfg L'"

section \<open>The socket forward proxy (socket_forward_proxy/main.cpp)\<close>

type_synonym byte = "8 word"

text \<open>
  Modelled from the spec: \<open>Packet\<close> of \<open>common/vsoc/shm/socket_forward_layout.h\<close>, which is
  not among the sources. A packet carries its payload bytes, \<open>payload_length\<close> of them, and
  the end-of-stream mark that \<open>IsEnd\<close> reads.
\<close>

record Packet =
  payload :: "byte list"
  is_end_of_stream :: bool

definition payload_length :: "Packet \<Rightarrow> nat" where
  "payload_length p = length (payload p)"

definition IsEnd :: "Packet \<Rightarrow> bool" where
  "IsEnd p = is_end_of_stream p"

text \<open>
  Modelled from the spec: \<open>cvd::SharedFD\<close> of \<open>common/libs/fs/shared_fd.h\<close>, which is not
  among the sources, as far as the proxy uses it on a TCP socket. \<open>is_open\<close> is what
  \<open>IsOpen\<close> answers; \<open>sent\<close> is the bytes the socket has taken so far, in order;
  \<open>shut_wr\<close> records \<open>Shutdown(SHUT_WR)\<close>. How the socket answers is the environment's
  choice: \<open>send_results n\<close> is the answer to the \<open>n\<close>-th call of \<open>Send\<close>, a positive number
  of bytes the socket is ready to take, or 0 or a negative value; \<open>send_calls\<close> counts the
  calls made. \<open>Send\<close> never reports more bytes than it was given.
\<close>

record SharedFD =
  is_open :: bool
  sent :: "byte list"
  shut_wr :: bool
  send_results :: "nat \<Rightarrow> int"
  send_calls :: nat

definition IsOpen :: "SharedFD \<Rightarrow> bool" where
  "IsOpen fd = is_open fd"

definition Send :: "SharedFD \<Rightarrow> byte list \<Rightarrow> int \<times> SharedFD" where
  "Send fd buf =
     (let r = send_results fd (send_calls fd);
          n = (if int (length buf) < r then int (length buf) else r)
      in (n, fd\<lparr>send_calls := send_calls fd + 1, sent := sent fd @ take (nat n) buf\<rparr>))"

definition Shutdown_SHUT_WR :: "SharedFD \<Rightarrow> SharedFD" where
  "Shutdown_SHUT_WR fd = fd\<lparr>shut_wr := True\<rparr>"

text \<open>
  \<open>SocketSender::SendAll\<close>: \<open>ssize_t\<close> values are integers; the result is the returned value
  and the socket after the call.
\<close>

function SendAll_loop :: "SharedFD \<Rightarrow> Packet \<Rightarrow> int \<Rightarrow> int \<times> SharedFD" where
  "SendAll_loop socket packet written =
     (if written < int (payload_length packet) then
        if \<not> IsOpen socket then (-1, socket)
        else
          (case Send socket (drop (nat written) (payload packet)) of
             (just_written, socket') \<Rightarrow>
               if just_written \<le> 0 then (just_written, socket')
               else SendAll_loop socket' packet (written + just_written))
      else (written, socket))"
  by pat_completeness auto
termination
  by (relation "measure (\<lambda>(socket, packet, written). nat (int (payload_length packet) - written))")
    auto

declare SendAll_loop.simps [simp del]

definition SendAll :: "SharedFD \<Rightarrow> Packet \<Rightarrow> int \<times> SharedFD" where
  "SendAll socket packet = SendAll_loop socket packet 0"

text \<open>
  \<open>~SocketSender\<close>: the socket is shut down for writing unless the sender was moved from
  (\<open>None\<close>).
\<close>

definition SocketSender_dtor :: "SharedFD option \<Rightarrow> SharedFD option" where
  "SocketSender_dtor socket =
     (case socket of None \<Rightarrow> None | Some fd \<Rightarrow> Some (Shutdown_SHUT_WR fd))"

text \<open>
  \<open>ShmToSocket\<close>. The packets that \<open>shm_receiver.Recv\<close> delivers are a list, in order.
  \<open>Returned\<close>: the loop was left and the function returned, which destroys the
  \<open>SocketSender\<close>; \<open>InRecv\<close>: every packet of the list was handled and the thread is in
  \<open>Recv\<close>, waiting for the next one.
\<close>

datatype pump = Returned | InRecv

fun ShmToSocket_loop :: "SharedFD \<Rightarrow> Packet list \<Rightarrow> pump \<times> SharedFD" where
  "ShmToSocket_loop socket [] = (InRecv, socket)"
| "ShmToSocket_loop socket (packet # rest) =
     (if IsEnd packet then (Returned, socket)
      else
        (case SendAll socket packet of
           (r, socket') \<Rightarrow>
             if r < 0 then (Returned, socket')
             else ShmToSocket_loop socket' rest))"

definition ShmToSocket :: "SharedFD \<Rightarrow> Packet list \<Rightarrow> pump \<times> SharedFD option" where
  "ShmToSocket socket packets =
     (case ShmToSocket_loop socket packets of
        (Returned, socket') \<Rightarrow> (Returned, SocketSender_dtor (Some socket'))
      | (InRecv, socket') \<Rightarrow> (InRecv, Some socket'))"

text \<open>
  \<open>OpenSocketConnection\<close> (guest side). \<open>SocketLocalClient port n\<close> is the descriptor that
  the \<open>n\<close>-th call of \<open>cvd::SharedFD::SocketLocalClient(port, SOCK_STREAM)\<close> returns, the
  environment's choice. The result is the returned descriptor and the arguments of the
  calls of \<open>sleep\<close> made on the way, in seconds; \<open>None\<close> is a call that never returns.
\<close>

partial_function (option) OpenSocketConnection_loop ::
  "(int \<Rightarrow> nat \<Rightarrow> SharedFD) \<Rightarrow> int \<Rightarrow> nat \<Rightarrow> nat list \<Rightarrow> (SharedFD \<times> nat list) option" where
  "OpenSocketConnection_loop SocketLocalClient port n slept =
     (if IsOpen (SocketLocalClient port n) then Some (SocketLocalClient port n, slept)
      else OpenSocketConnection_loop SocketLocalClient port (n + 1) (slept @ [1]))"

declare OpenSocketConnection_loop.simps [code]

definition OpenSocketConnection ::
  "(int \<Rightarrow> nat \<Rightarrow> SharedFD) \<Rightarrow> int \<Rightarrow> (SharedFD \<times> nat list) option" where
  "OpenSocketConnection SocketLocalClient port =
     OpenSocketConnection_loop SocketLocalClient port 0 []"

section \<open>Auxiliary definitions\<close>

text \<open>
  The effect of the loop of \<open>UpdateRegionOffsetsAndDeviceSize\<close> on the regions it visits,
  by recursion on the list: the begin offsets it assigns, and the offset it ends with.
  These are proof devices; \<open>UpdateRegionOffsets_loop_eq\<close> relates them to the loop.
\<close>

fun assign_offsets :: "VSoCRegionLayoutImpl list \<Rightarrow> uint32_t \<Rightarrow> VSoCRegionLayoutImpl list" where
  "assign_offsets [] offset = []"
| "assign_offsets (r # rs) offset =
     r\<lparr>begin_offset := offset\<rparr> # assign_offsets rs (plus_assign offset (region_size r))"

fun end_offset :: "VSoCRegionLayoutImpl list \<Rightarrow> uint32_t \<Rightarrow> uint32_t" where
  "end_offset [] offset = offset"
| "end_offset (r # rs) offset = end_offset rs (plus_assign offset (region_size r))"

text \<open>
  The offset the constructor starts from, for \<open>n\<close> regions: the size of the global header
  plus the region descriptor table, page-aligned.
\<close>

definition first_offset :: "platform \<Rightarrow> nat \<Rightarrow> uint32_t" where
  "first_offset cfg n =
     AlignToPageSize cfg
       (plus_assign (plus_assign 0 (sizeof_vsoc_shm_layout_descriptor cfg))
          (of_nat n * sizeof_vsoc_device_region cfg))"

text \<open>The invariant of the layouts a process can hold.\<close>

definition layout_inv :: "platform \<Rightarrow> VSoCMemoryLayoutImpl \<Rightarrow> bool" where
  "layout_inv cfg L \<longleftrightarrow>
     (\<forall>n k. region_idx_by_name L n = Some k \<longrightarrow> k < length (regions L)) \<and>
     assign_offsets (regions L) (first_offset cfg (length (regions L))) = regions L \<and>
     AlignToPowerOf2 (end_offset (regions L) (first_offset cfg (length (regions L))))
       = Some (device_size L) \<and>
     (\<forall>r\<in>set (regions L). unat (page_size cfg) dvd unat (region_size r))"

text \<open>
  The descriptor that \<open>WriteRegionDescription\<close> leaves in memory (its check never fails,
  see \<open>WriteRegionDescription_Inr\<close>).
\<close>

definition written_description ::
  "platform \<Rightarrow> vsoc_device_region \<Rightarrow> VSoCRegionLayoutImpl \<Rightarrow> vsoc_device_region" where
  "written_description cfg d r = (case WriteRegionDescription cfg d r of Inr d' \<Rightarrow> d' | Inl e \<Rightarrow> d)"

section \<open>Concrete inputs\<close>

text \<open>
  A platform with 4 KiB pages. The sizes of the two structs of \<open>uapi/vsoc_shm.h\<close> and the
  value 0 of \<open>VSOC_REGION_WHOLE\<close> are example values: the header is not among the sources.
\<close>

definition example_platform :: platform where
  "example_platform =
     \<lparr> page_size = 4096, sizeof_vsoc_shm_layout_descriptor = 16, sizeof_vsoc_device_region = 60,
       VSOC_REGION_WHOLE = 0, VSOC_DEVICE_NAME_SZ = 16,
       CURRENT_VSOC_LAYOUT_MAJOR_VERSION = 2, CURRENT_VSOC_LAYOUT_MINOR_VERSION = 0 \<rparr>"

text \<open>
  A region with a 100-byte data layout and four signal words in each direction, at a given
  begin offset and size. \<open>ValidateAndBuildLayout\<close> builds it with begin offset 0 and size
  \<open>0x1000\<close> (\<open>example_build\<close>).
\<close>

definition example_region :: "string \<Rightarrow> string option \<Rightarrow> uint32_t \<Rightarrow> size_t \<Rightarrow> VSoCRegionLayoutImpl" where
  "example_region name mgr begin sz =
     \<lparr> region_name = name, layout_size = 100,
       guest_to_host_signal_table_log_size = 2, host_to_guest_signal_table_log_size = 2,
       managed_by = mgr, begin_offset = begin, region_size = sz \<rparr>"

text \<open>The layout of the single region \<open>a\<close>: as constructed, resized to two pages, and
  resized to \<open>0xFFFFF000\<close> bytes.\<close>

definition layout_a :: VSoCMemoryLayoutImpl where
  "layout_a = \<lparr> regions = [example_region ''a'' None 0x1000 0x1000],
                region_idx_by_name = [''a'' \<mapsto> 0], device_size = 0x2000 \<rparr>"

definition layout_a_resized :: VSoCMemoryLayoutImpl where
  "layout_a_resized = \<lparr> regions = [example_region ''a'' None 0x1000 0x2000],
                        region_idx_by_name = [''a'' \<mapsto> 0], device_size = 0x4000 \<rparr>"

definition layout_a_wrapped :: VSoCMemoryLayoutImpl where
  "layout_a_wrapped = \<lparr> regions = [example_region ''a'' None 0x1000 0xFFFFF000],
                        region_idx_by_name = [''a'' \<mapsto> 0], device_size = 1 \<rparr>"

text \<open>The layout of the regions \<open>a\<close> and \<open>b\<close>: as constructed, with \<open>a\<close> resized to two
  pages, and with \<open>a\<close> resized to \<open>0xFFFFF000\<close> bytes.\<close>

definition layout_ab :: VSoCMemoryLayoutImpl where
  "layout_ab =
     \<lparr> regions = [example_region ''a'' None 0x1000 0x1000, example_region ''b'' None 0x2000 0x1000],
       region_idx_by_name = [''a'' \<mapsto> 0, ''b'' \<mapsto> 1], device_size = 0x4000 \<rparr>"

definition layout_ab_resized :: VSoCMemoryLayoutImpl where
  "layout_ab_resized =
     \<lparr> regions = [example_region ''a'' None 0x1000 0x2000, example_region ''b'' None 0x3000 0x1000],
       region_idx_by_name = [''a'' \<mapsto> 0, ''b'' \<mapsto> 1], device_size = 0x4000 \<rparr>"

definition layout_ab_wrapped :: VSoCMemoryLayoutImpl where
  "layout_ab_wrapped =
     \<lparr> regions = [example_region ''a'' None 0x1000 0xFFFFF000, example_region ''b'' None 0 0x1000],
       region_idx_by_name = [''a'' \<mapsto> 0, ''b'' \<mapsto> 1], device_size = 0x1000 \<rparr>"

text \<open>Layouts with a manager: \<open>a\<close> managed by the later region \<open>b\<close>, \<open>a\<close> managed by
  itself, and \<open>b\<close> managed by the first region \<open>a\<close>.\<close>

definition layout_a_managed_by_b :: VSoCMemoryLayoutImpl where
  "layout_a_managed_by_b =
     \<lparr> regions = [example_region ''a'' (Some ''b'') 0x1000 0x1000,
                  example_region ''b'' None 0x2000 0x1000],
       region_idx_by_name = [''a'' \<mapsto> 0, ''b'' \<mapsto> 1], device_size = 0x4000 \<rparr>"

definition layout_a_managed_by_a :: VSoCMemoryLayoutImpl where
  "layout_a_managed_by_a =
     \<lparr> regions = [example_region ''a'' (Some ''a'') 0x1000 0x1000],
       region_idx_by_name = [''a'' \<mapsto> 0], device_size = 0x2000 \<rparr>"

definition layout_b_managed_by_a :: VSoCMemoryLayoutImpl where
  "layout_b_managed_by_a =
     \<lparr> regions = [example_region ''a'' None 0x1000 0x1000,
                  example_region ''b'' (Some ''a'') 0x2000 0x1000],
       region_idx_by_name = [''a'' \<mapsto> 0, ''b'' \<mapsto> 1], device_size = 0x4000 \<rparr>"

text \<open>A shared memory with room for two descriptors, all fields zero.\<close>

definition example_memory :: shared_memory where
  "example_memory =
     \<lparr> header = \<lparr> major_version = 0, minor_version = 0, size_field = 0, region_count = 0,
                  vsoc_region_desc_offset = 0 \<rparr>,
       region_descriptions =
         replicate 2
           \<lparr> current_version = 0, min_compatible_version = 0, region_begin_offset = 0,
             region_end_offset = 0, offset_of_region_data = 0, device_name = [],
             guest_to_host_signal_table =
               \<lparr> num_nodes_lg2 = 0, futex_uaddr_table_offset = 0, interrupt_signalled_offset = 0 \<rparr>,
             host_to_guest_signal_table =
               \<lparr> num_nodes_lg2 = 0, futex_uaddr_table_offset = 0, interrupt_signalled_offset = 0 \<rparr>,
             managed_by_field = 0 \<rparr> \<rparr>"

text \<open>
  What \<open>WriteLayout\<close> leaves in \<open>example_memory\<close> for the layout of \<open>a\<close> and \<open>b\<close> with \<open>a\<close>
  resized to \<open>0xFFFFF000\<close> bytes.
\<close>

definition memory_ab_wrapped :: shared_memory where
  "memory_ab_wrapped =
     \<lparr> header = \<lparr> major_version = 2, minor_version = 0, size_field = 0x1000, region_count = 2,
                  vsoc_region_desc_offset = 16 \<rparr>,
       region_descriptions =
         [\<lparr> current_version = 0, min_compatible_version = 0, region_begin_offset = 0x1000,
            region_end_offset = 0, offset_of_region_data = 40, device_name = ''a'',
            guest_to_host_signal_table =
              \<lparr> num_nodes_lg2 = 2, futex_uaddr_table_offset = 0, interrupt_signalled_offset = 16 \<rparr>,
            host_to_guest_signal_table =
              \<lparr> num_nodes_lg2 = 2, futex_uaddr_table_offset = 20, interrupt_signalled_offset = 36 \<rparr>,
            managed_by_field = 0 \<rparr>,
          \<lparr> current_version = 0, min_compatible_version = 0, region_begin_offset = 0,
            region_end_offset = 0x1000, offset_of_region_data = 40, device_name = ''b'',
            guest_to_host_signal_table =
              \<lparr> num_nodes_lg2 = 2, futex_uaddr_table_offset = 0, interrupt_signalled_offset = 16 \<rparr>,
            host_to_guest_signal_table =
              \<lparr> num_nodes_lg2 = 2, futex_uaddr_table_offset = 20, interrupt_signalled_offset = 36 \<rparr>,
            managed_by_field = 0 \<rparr>] \<rparr>"

text \<open>
  An open socket whose first \<open>Send\<close> answers 0 and whose later ones take two bytes each;
  two data packets and the end-of-stream packet.
\<close>

definition example_socket :: SharedFD where
  "example_socket = \<lparr> is_open = True, sent = [], shut_wr = False,
                       send_results = (\<lambda>n. if n = 0 then 0 else 2), send_calls = 0 \<rparr>"

definition example_data_packet :: Packet where
  "example_data_packet = \<lparr>payload = [1, 2], is_end_of_stream = False\<rparr>"

definition example_next_packet :: Packet where
  "example_next_packet = \<lparr>payload = [3, 4], is_end_of_stream = False\<rparr>"

definition example_packets :: "Packet list" where
  "example_packets = [example_data_packet, example_next_packet,
                      \<lparr>payload = [], is_end_of_stream = True\<rparr>]"

text \<open>A local service that accepts from the fourth dial on, and one that never does.\<close>

definition dial_open_from_3 :: "int \<Rightarrow> nat \<Rightarrow> SharedFD" where
  "dial_open_from_3 port n = example_socket\<lparr>is_open := (3 \<le> n)\<rparr>"

definition dial_never_open :: "int \<Rightarrow> nat \<Rightarrow> SharedFD" where
  "dial_never_open port n = example_socket\<lparr>is_open := False\<rparr>"

section \<open>Machine arithmetic\<close>

lemma unat_ucast_64_32: "unat (ucast (x :: 64 word) :: 32 word) = unat x mod 2 ^ 32"
  by (simp add: unsigned_ucast_eq take_bit_eq_mod)

lemma unat_ucast_32_64: "unat (ucast (x :: 32 word) :: 64 word) = unat x"
proof -
  have "unat x < 2 ^ 32" using unsigned_less [of x] by simp
  then have "unat x < 2 ^ 64" by simp
  then show ?thesis by (simp add: unsigned_ucast_eq take_bit_eq_mod)
qed

lemma unat_plus_assign: "unat (plus_assign offset x) = (unat offset + unat x) mod 2 ^ 32"
proof -
  have "unat (plus_assign offset x) = ((unat offset + unat x) mod 2 ^ 64) mod 2 ^ 32"
    by (simp only: plus_assign_def unat_ucast_64_32 unat_word_ariths unat_ucast_32_64) simp
  also have "\<dots> = (unat offset + unat x) mod 2 ^ 32"
    by (rule mod_mod_cancel) simp
  finally show ?thesis .
qed

lemma plus_assign_eq: "plus_assign offset x = offset + ucast x"
proof (rule unsigned_word_eqI [where ?'a = nat])
  show "unat (plus_assign offset x) = unat (offset + ucast x)"
    by (simp only: unat_plus_assign unat_word_ariths unat_ucast_64_32) (simp add: mod_simps)
qed

lemma unat_AlignToPageSize:
  "unat (AlignToPageSize cfg v) = (unat (v + (page_size cfg - 1)) div unat (page_size cfg)) * unat (page_size cfg)"
proof -
  let ?x = "v + (page_size cfg - 1)" and ?p = "page_size cfg"
  have "unat (?x div ?p) * unat ?p \<le> unat ?x"
    by (simp add: unat_div)
  also have "\<dots> < 2 ^ 32" using unsigned_less [of ?x] by simp
  finally have "unat (?x div ?p * ?p) = unat (?x div ?p) * unat ?p"
    using unat_mult_lem [of "?x div ?p" ?p] by simp
  then show ?thesis by (simp add: AlignToPageSize_def unat_div)
qed

lemma AlignToPageSize_dvd: "unat (page_size cfg) dvd unat (AlignToPageSize cfg v)"
  by (simp only: unat_AlignToPageSize) simp

section \<open>The doubling loop\<close>

lemma unat_pow2_mod: "unat ((2::32 word) ^ k) = 2 ^ k mod 2 ^ 32"
proof -
  have "(2::32 word) ^ k = of_nat (2 ^ k)" by simp
  then show ?thesis by (simp only: unat_of_nat) simp
qed

lemma unat_pow2_32: "k \<le> 31 \<Longrightarrow> unat ((2::32 word) ^ k) = 2 ^ k"
proof -
  assume "k \<le> 31"
  then have "k < 32" by simp
  then have "(2::nat) ^ k < 2 ^ 32" by (rule power_strict_increasing) simp
  then show ?thesis by (simp add: unat_pow2_mod)
qed

lemma pow2_le: "k \<le> 31 \<Longrightarrow> (2::nat) ^ k \<le> 2 ^ 31"
  by (rule power_increasing) simp_all

lemma unat_pow2_le: "unat ((2::32 word) ^ k) \<le> 2 ^ 31"
proof (cases "k \<le> 31")
  case True
  then show ?thesis using pow2_le [of k] by (simp only: unat_pow2_32)
next
  case False
  then have z: "(2::32 word) ^ k = 0" by simp
  show ?thesis unfolding z by simp
qed

lemma loop_terminates:
  "k \<le> 31 \<Longrightarrow> unat val \<le> 2 ^ 31 \<Longrightarrow>
   \<exists>m. k \<le> m \<and> m \<le> 31 \<and> AlignToPowerOf2_loop (2 ^ k) val = Some (2 ^ m) \<and> unat val \<le> 2 ^ m
       \<and> (m = k \<or> 2 ^ (m - 1) < unat val)"
proof (induction "31 - k" arbitrary: k)
  case 0
  then have k: "k = 31" by simp
  have "unat ((2::32 word) ^ 31) = 2 ^ 31" by (rule unat_pow2_32) simp
  then have "\<not> (2 ^ 31 :: 32 word) < val"
    using 0(3) by (simp only: word_less_nat_alt)
  then have "AlignToPowerOf2_loop (2 ^ k) val = Some (2 ^ k)"
    unfolding k by (subst AlignToPowerOf2_loop.simps) (simp only: if_False)
  then show ?case using k 0(3) by blast
next
  case (Suc n)
  then have k: "k < 31" by simp
  have uk: "unat ((2::32 word) ^ k) = 2 ^ k" using k by (intro unat_pow2_32) simp
  show ?case
  proof (cases "(2 ^ k :: 32 word) < val")
    case True
    have n: "n = 31 - (k + 1)" using Suc(2) by simp
    have k1: "k + 1 \<le> 31" using k by simp
    from Suc(1) [OF n k1 Suc(4)]
    obtain m where m: "k + 1 \<le> m" "m \<le> 31" "AlignToPowerOf2_loop (2 ^ (k + 1)) val = Some (2 ^ m)"
      "unat val \<le> 2 ^ m" "m = k + 1 \<or> 2 ^ (m - 1) < unat val"
      by blast
    have lt: "2 ^ k < unat val"
      using True uk by (simp only: word_less_nat_alt)
    have "(2::32 word) ^ k * 2 = 2 ^ (k + 1)" by simp
    then have "AlignToPowerOf2_loop (2 ^ k) val = Some (2 ^ m)"
      using True m(3) by (subst AlignToPowerOf2_loop.simps) (simp only: if_True)
    moreover have "2 ^ (m - 1) < unat val"
      using m(5) lt by auto
    moreover have "k \<le> m" using m(1) by simp
    ultimately show ?thesis using m(2) m(4) by blast
  next
    case False
    then have "unat val \<le> 2 ^ k"
      using uk by (simp only: word_less_nat_alt)
    moreover have "AlignToPowerOf2_loop (2 ^ k) val = Some (2 ^ k)"
      using False by (subst AlignToPowerOf2_loop.simps) (simp only: if_False)
    ultimately show ?thesis using Suc(3) by blast
  qed
qed

lemma loop_diverges_aux:
  assumes "AlignToPowerOf2_loop p0 val0 = Some y0"
  shows "\<not> (2 ^ 31 < unat val0 \<and> (\<exists>k. p0 = 2 ^ k))"
proof (rule AlignToPowerOf2_loop.raw_induct
    [where P = "\<lambda>p val y. \<not> (2 ^ 31 < unat val \<and> (\<exists>k. p = 2 ^ k))", OF _ assms])
  fix f :: "uint32_t \<Rightarrow> uint32_t \<Rightarrow> uint32_t option" and p val y
  assume IH: "\<And>p val y. f p val = Some y \<Longrightarrow> \<not> (2 ^ 31 < unat val \<and> (\<exists>k. p = 2 ^ k))"
    and step: "(if p < val then f (p * 2) val else Some p) = Some y"
  show "\<not> (2 ^ 31 < unat val \<and> (\<exists>k. p = 2 ^ k))"
  proof
    assume a: "2 ^ 31 < unat val \<and> (\<exists>k. p = 2 ^ k)"
    then obtain k where k: "p = 2 ^ k" by blast
    have "unat p \<le> 2 ^ 31" unfolding k by (rule unat_pow2_le)
    then have "unat p < unat val" using a by simp
    then have "p < val" by (simp only: word_less_nat_alt)
    then have "f (p * 2) val = Some y" using step by simp
    moreover have "p * 2 = 2 ^ (k + 1)" using k by simp
    ultimately show False using IH a by blast
  qed
qed

lemma loop_diverges: "2 ^ 31 < unat val \<Longrightarrow> AlignToPowerOf2_loop (2 ^ k) val = None"
  using loop_diverges_aux [of "2 ^ k" val] by (cases "AlignToPowerOf2_loop (2 ^ k) val") auto

lemma AlignToPowerOf2_Some:
  assumes "unat val \<le> 2 ^ 31"
  shows "\<exists>m\<le>31. AlignToPowerOf2 val = Some (2 ^ m) \<and> unat val \<le> 2 ^ m
           \<and> (\<forall>j. unat val \<le> 2 ^ j \<longrightarrow> (2::nat) ^ m \<le> 2 ^ j)"
proof -
  from loop_terminates [of 0 val] assms
  obtain m where m: "m \<le> 31" "AlignToPowerOf2_loop 1 val = Some (2 ^ m)" "unat val \<le> 2 ^ m"
    "m = 0 \<or> 2 ^ (m - 1) < unat val"
    by auto
  have "(2::nat) ^ m \<le> 2 ^ j" if j: "unat val \<le> 2 ^ j" for j
  proof (cases "m = 0")
    case True
    then show ?thesis by simp
  next
    case False
    then have "2 ^ (m - 1) < unat val" using m(4) by blast
    then have "(2::nat) ^ (m - 1) < 2 ^ j" using j by (rule less_le_trans)
    then have "m - 1 < j" by (rule power_less_imp_less_exp [rotated]) simp
    then have "m \<le> j" by simp
    then show ?thesis by (intro power_increasing) simp_all
  qed
  then show ?thesis using m unfolding AlignToPowerOf2_def by blast
qed

lemma AlignToPowerOf2_None: "2 ^ 31 < unat val \<Longrightarrow> AlignToPowerOf2 val = None"
  using loop_diverges [of val 0] by (simp add: AlignToPowerOf2_def)

lemma AlignToPowerOf2_None_iff: "AlignToPowerOf2 val = None \<longleftrightarrow> 2 ^ 31 < unat val"
proof
  assume "AlignToPowerOf2 val = None"
  then show "2 ^ 31 < unat val"
    using AlignToPowerOf2_Some [of val] by (cases "unat val \<le> 2 ^ 31") auto
next
  assume "2 ^ 31 < unat val"
  then show "AlignToPowerOf2 val = None" by (rule AlignToPowerOf2_None)
qed

section \<open>The offsets loop and the layout invariant\<close>

lemma length_assign_offsets [simp]: "length (assign_offsets rs offset) = length rs"
  by (induction rs arbitrary: offset) simp_all

lemma UpdateRegionOffsets_loop_eq:
  "UpdateRegionOffsets_loop rs offset index =
     (take index rs @ assign_offsets (drop index rs) offset, end_offset (drop index rs) offset)"
proof (induction rs offset index rule: UpdateRegionOffsets_loop.induct)
  case (1 rs offset index)
  show ?case
  proof (cases "index < length rs")
    case True
    let ?r = "(rs ! index)\<lparr>begin_offset := offset\<rparr>"
    let ?off = "plus_assign offset (region_size (rs ! index))"
    have d: "drop index rs = rs ! index # drop (index + 1) rs"
      using True by (simp add: Cons_nth_drop_Suc)
    have t: "take (index + 1) (rs[index := ?r]) = take index rs @ [?r]"
      using True by (simp add: take_Suc_conv_app_nth)
    have d': "drop (index + 1) (rs[index := ?r]) = drop (index + 1) rs"
      by simp
    have "UpdateRegionOffsets_loop rs offset index =
            UpdateRegionOffsets_loop (rs[index := ?r]) ?off (index + 1)"
      using True by (subst UpdateRegionOffsets_loop.simps) simp
    also have "\<dots> = (take (index + 1) (rs[index := ?r]) @ assign_offsets (drop (index + 1) (rs[index := ?r])) ?off,
                      end_offset (drop (index + 1) (rs[index := ?r])) ?off)"
      using True by (rule 1)
    also have "\<dots> = (take index rs @ assign_offsets (drop index rs) offset, end_offset (drop index rs) offset)"
    proof -
      have a: "assign_offsets (drop index rs) offset = ?r # assign_offsets (drop (index + 1) rs) ?off"
        by (subst d) simp
      have e: "end_offset (drop index rs) offset = end_offset (drop (index + 1) rs) ?off"
        by (subst d) simp
      show ?thesis unfolding t d' a e by simp
    qed
    finally show ?thesis .
  next
    case False
    then show ?thesis by (subst UpdateRegionOffsets_loop.simps) simp
  qed
qed

lemma assign_offsets_append:
  "assign_offsets (xs @ ys) offset = assign_offsets xs offset @ assign_offsets ys (end_offset xs offset)"
  by (induction xs arbitrary: offset) simp_all

lemma end_offset_append:
  "end_offset (xs @ ys) offset = end_offset ys (end_offset xs offset)"
  by (induction xs arbitrary: offset) simp_all

lemma assign_offsets_idem: "assign_offsets (assign_offsets rs a) b = assign_offsets rs b"
  by (induction rs arbitrary: a b) simp_all

lemma end_offset_assign: "end_offset (assign_offsets rs a) b = end_offset rs b"
  by (induction rs arbitrary: a b) simp_all

lemma assign_offsets_nth:
  "i < length rs \<Longrightarrow> \<exists>b. assign_offsets rs offset ! i = (rs ! i)\<lparr>begin_offset := b\<rparr>"
proof (induction rs arbitrary: offset i)
  case Nil
  then show ?case by simp
next
  case (Cons r rs)
  then show ?case by (cases i) auto
qed

lemma assigned_consecutive:
  "assign_offsets rs offset = rs \<Longrightarrow> i + 1 < length rs \<Longrightarrow>
   begin_offset (rs ! (i + 1)) = plus_assign (begin_offset (rs ! i)) (region_size (rs ! i))"
proof (induction rs arbitrary: offset i)
  case Nil
  then show ?case by simp
next
  case (Cons r rs)
  from Cons.prems(1) have r: "begin_offset r = offset"
    and rs: "assign_offsets rs (plus_assign offset (region_size r)) = rs"
    by (simp_all, metis VSoCRegionLayoutImpl.select_convs VSoCRegionLayoutImpl.surjective VSoCRegionLayoutImpl.update_convs(6))
  show ?case
  proof (cases i)
    case 0
    then obtain r' rs' where rs': "rs = r' # rs'" using Cons.prems(2) by (cases rs) auto
    with rs have "begin_offset r' = plus_assign offset (region_size r)"
      by (simp, metis VSoCRegionLayoutImpl.select_convs VSoCRegionLayoutImpl.surjective VSoCRegionLayoutImpl.update_convs(6))
    then show ?thesis using 0 rs' r by simp
  next
    case (Suc j)
    then show ?thesis using Cons.IH [OF rs, of j] Cons.prems(2) by simp
  qed
qed

lemma begin_offset_update_id: "r\<lparr>begin_offset := a\<rparr> = r \<longleftrightarrow> begin_offset r = a"
  by (cases r) auto

lemma assigned_first:
  "assign_offsets rs offset = rs \<Longrightarrow> rs \<noteq> [] \<Longrightarrow> begin_offset (rs ! 0) = offset"
  by (cases rs) (auto simp: begin_offset_update_id)

lemma assigned_end:
  "assign_offsets rs offset = rs \<Longrightarrow> rs \<noteq> [] \<Longrightarrow>
   end_offset rs offset = plus_assign (begin_offset (last rs)) (region_size (last rs))"
proof (induction rs arbitrary: offset)
  case Nil
  then show ?case by simp
next
  case (Cons r rs)
  from Cons.prems(1) have r: "begin_offset r = offset"
    and rs: "assign_offsets rs (plus_assign offset (region_size r)) = rs"
    by (simp_all add: begin_offset_update_id)
  show ?case
  proof (cases "rs = []")
    case True
    then show ?thesis using r by simp
  next
    case False
    then show ?thesis using Cons.IH [OF rs False] by simp
  qed
qed

lemma dvd_unat_plus_assign:
  assumes "p dvd (2::nat) ^ 32" "p dvd unat a" "p dvd unat b"
  shows "p dvd unat (plus_assign a b)"
  unfolding unat_plus_assign using assms by (intro dvd_mod dvd_add)

lemma assign_offsets_aligned:
  "p dvd (2::nat) ^ 32 \<Longrightarrow> p dvd unat offset \<Longrightarrow> \<forall>r\<in>set rs. p dvd unat (region_size r) \<Longrightarrow>
   \<forall>r\<in>set (assign_offsets rs offset). p dvd unat (begin_offset r)"
proof (induction rs arbitrary: offset)
  case Nil
  then show ?case by simp
next
  case (Cons r rs)
  have "p dvd unat (plus_assign offset (region_size r))"
    using Cons.prems by (intro dvd_unat_plus_assign) simp_all
  then have "\<forall>r\<in>set (assign_offsets rs (plus_assign offset (region_size r))). p dvd unat (begin_offset r)"
    using Cons.prems by (intro Cons.IH) simp_all
  then show ?case using Cons.prems(2) by simp
qed

lemma assign_offsets_sizes:
  "\<forall>r\<in>set rs. P (region_size r) \<Longrightarrow> \<forall>r\<in>set (assign_offsets rs offset). P (region_size r)"
  by (induction rs arbitrary: offset) simp_all

lemma GetNameToIndexMap_loop_range:
  "GetNameToIndexMap_loop rs index result = Inr m \<Longrightarrow> (\<forall>n k. result n = Some k \<longrightarrow> k < index) \<Longrightarrow>
   (\<forall>n k. m n = Some k \<longrightarrow> k < index + length rs)"
proof (induction rs arbitrary: index result)
  case Nil
  then show ?case by simp
next
  case (Cons r rs)
  from Cons.prems(1) have fresh: "result (region_name r) = None"
    and rec: "GetNameToIndexMap_loop rs (index + 1) (result(region_name r \<mapsto> index)) = Inr m"
    by (simp_all split: if_splits)
  have "\<forall>n k. (result(region_name r \<mapsto> index)) n = Some k \<longrightarrow> k < index + 1"
    using Cons.prems(2) by (auto simp: less_Suc_eq)
  from Cons.IH [OF rec this] show ?case by simp
qed

lemma GetNameToIndexMap_range:
  "GetNameToIndexMap rs = Inr m \<Longrightarrow> m n = Some k \<Longrightarrow> k < length rs"
  using GetNameToIndexMap_loop_range [of rs 0 Map.empty m] by (simp add: GetNameToIndexMap_def)

lemma GetMinRegionSize_dvd: "unat (page_size cfg) dvd unat (GetMinRegionSize cfg r)"
  by (simp add: GetMinRegionSize_def unat_ucast_32_64 AlignToPageSize_dvd)

lemma ctor_inv:
  assumes "VSoCMemoryLayoutImpl_ctor cfg rs = Some (Inr L)"
    and "\<forall>r\<in>set rs. unat (page_size cfg) dvd unat (region_size r)"
  shows "layout_inv cfg L"
proof -
  from assms(1) obtain idx where idx: "GetNameToIndexMap rs = Inr idx"
    by (auto simp: VSoCMemoryLayoutImpl_ctor_def split: sum.splits)
  let ?start = "first_offset cfg (length rs)"
  from assms(1) idx have
    "UpdateRegionOffsetsAndDeviceSize \<lparr>regions = rs, region_idx_by_name = idx, device_size = 0\<rparr> ?start 0 = Some L"
    by (auto simp: VSoCMemoryLayoutImpl_ctor_def first_offset_def Let_def split: option.splits)
  then obtain d where d: "AlignToPowerOf2 (end_offset rs ?start) = Some d"
    and L: "L = \<lparr>regions = assign_offsets rs ?start, region_idx_by_name = idx, device_size = d\<rparr>"
    by (auto simp: UpdateRegionOffsetsAndDeviceSize_def UpdateRegionOffsets_loop_eq split: option.splits)
  show ?thesis
    unfolding layout_inv_def L
    using d idx assms(2)
    by (auto simp: assign_offsets_idem end_offset_assign dest: GetNameToIndexMap_range
        intro: assign_offsets_sizes [rule_format])
qed

lemma ResizeRegion_TrueE:
  assumes "ResizeRegion cfg L name sz = Some (True, L')"
  obtains k d where
    "region_idx_by_name L name = Some k"
    "\<not> (ucast (AlignToPageSize cfg (ucast sz)) :: size_t) < GetMinRegionSize cfg (regions L ! k)"
    "AlignToPowerOf2
       (end_offset (drop (k + 1) (regions L))
          (plus_assign (begin_offset (regions L ! k)) (ucast (AlignToPageSize cfg (ucast sz))))) = Some d"
    "L' = L\<lparr>regions :=
              take (k + 1) ((regions L)[k := (regions L ! k)\<lparr>region_size := ucast (AlignToPageSize cfg (ucast sz))\<rparr>])
              @ assign_offsets (drop (k + 1) (regions L))
                  (plus_assign (begin_offset (regions L ! k)) (ucast (AlignToPageSize cfg (ucast sz)))),
            device_size := d\<rparr>"
proof -
  from assms obtain k where k: "region_idx_by_name L name = Some k"
    by (auto simp: ResizeRegion_def split: option.splits)
  let ?new = "ucast (AlignToPageSize cfg (ucast sz)) :: size_t"
  let ?r = "(regions L ! k)\<lparr>region_size := ?new\<rparr>"
  let ?off = "plus_assign (begin_offset (regions L ! k)) ?new"
  from assms k have ge: "\<not> ?new < GetMinRegionSize cfg (regions L ! k)"
    by (auto simp: ResizeRegion_def Let_def split: if_splits)
  from assms k ge have
    "UpdateRegionOffsetsAndDeviceSize (L\<lparr>regions := (regions L)[k := ?r]\<rparr>) ?off (k + 1) = Some L'"
    by (auto simp: ResizeRegion_def Let_def plus_assign_def)
  then obtain d where "AlignToPowerOf2 (end_offset (drop (k + 1) (regions L)) ?off) = Some d"
    and "L' = L\<lparr>regions := take (k + 1) ((regions L)[k := ?r]) @ assign_offsets (drop (k + 1) (regions L)) ?off,
              device_size := d\<rparr>"
    by (auto simp: UpdateRegionOffsetsAndDeviceSize_def UpdateRegionOffsets_loop_eq split: option.splits)
  with k ge show thesis by (rule that)
qed

lemma resize_assign:
  fixes new :: size_t and r :: VSoCRegionLayoutImpl
  assumes "assign_offsets (A @ r # B) start = A @ r # B"
  defines "off \<equiv> plus_assign (begin_offset r) new"
  shows "assign_offsets (A @ r\<lparr>region_size := new\<rparr> # assign_offsets B off) start
           = A @ r\<lparr>region_size := new\<rparr> # assign_offsets B off"
    and "end_offset (A @ r\<lparr>region_size := new\<rparr> # assign_offsets B off) start = end_offset B off"
proof -
  from assms(1) have "assign_offsets A start @ assign_offsets (r # B) (end_offset A start) = A @ r # B"
    by (simp only: assign_offsets_append)
  then have A: "assign_offsets A start = A" and rB: "assign_offsets (r # B) (end_offset A start) = r # B"
    by simp_all
  from rB have r: "begin_offset r = end_offset A start"
    by (simp add: begin_offset_update_id)
  show "assign_offsets (A @ r\<lparr>region_size := new\<rparr> # assign_offsets B off) start
           = A @ r\<lparr>region_size := new\<rparr> # assign_offsets B off"
    by (simp add: assign_offsets_append A assign_offsets_idem begin_offset_update_id r off_def)
  show "end_offset (A @ r\<lparr>region_size := new\<rparr> # assign_offsets B off) start = end_offset B off"
    by (simp add: end_offset_append end_offset_assign r off_def)
qed

lemma take_Suc_update:
  "k < length rs \<Longrightarrow> take (Suc k) (rs[k := x]) = take k rs @ [x]"
  by (simp add: take_Suc_conv_app_nth)

lemma resize_inv:
  assumes inv: "layout_inv cfg L" and res: "ResizeRegion cfg L name sz = Some (True, L')"
  shows "layout_inv cfg L'"
proof -
  let ?new = "ucast (AlignToPageSize cfg (ucast sz)) :: size_t"
  from res obtain k d where k: "region_idx_by_name L name = Some k"
    and d: "AlignToPowerOf2
       (end_offset (drop (k + 1) (regions L)) (plus_assign (begin_offset (regions L ! k)) ?new)) = Some d"
    and L': "L' = L\<lparr>regions :=
              take (k + 1) ((regions L)[k := (regions L ! k)\<lparr>region_size := ?new\<rparr>])
              @ assign_offsets (drop (k + 1) (regions L)) (plus_assign (begin_offset (regions L ! k)) ?new),
            device_size := d\<rparr>"
    by (rule ResizeRegion_TrueE)
  let ?rs = "regions L" and ?off = "plus_assign (begin_offset (regions L ! k)) ?new"
  let ?A = "take k ?rs" and ?r = "?rs ! k" and ?B = "drop (k + 1) ?rs"
  from inv k have klen: "k < length ?rs" by (auto simp: layout_inv_def)
  have split: "?rs = ?A @ ?r # ?B" using klen by (simp add: id_take_nth_drop)
  have rs': "regions L' = ?A @ ?r\<lparr>region_size := ?new\<rparr> # assign_offsets ?B ?off"
    using klen by (simp add: L' take_Suc_update)
  have len: "length (regions L') = length ?rs"
    unfolding rs' using klen by simp
  let ?start = "first_offset cfg (length ?rs)"
  from inv have "assign_offsets ?rs ?start = ?rs" by (simp add: layout_inv_def)
  then have a: "assign_offsets (?A @ ?r # ?B) ?start = ?A @ ?r # ?B" using split by simp
  have 1: "assign_offsets (regions L') ?start = regions L'"
    unfolding rs' using a by (rule resize_assign(1))
  have 2: "end_offset (regions L') ?start = end_offset ?B ?off"
    unfolding rs' using a by (rule resize_assign(2))
  have new: "unat (page_size cfg) dvd unat ?new"
    by (simp add: unat_ucast_32_64 AlignToPageSize_dvd)
  have old: "\<forall>r\<in>set ?rs. unat (page_size cfg) dvd unat (region_size r)"
    using inv by (simp add: layout_inv_def)
  have "\<forall>r\<in>set ?A. unat (page_size cfg) dvd unat (region_size r)"
    using old by (meson in_set_takeD)
  moreover have "\<forall>r\<in>set (assign_offsets ?B ?off). unat (page_size cfg) dvd unat (region_size r)"
    using old by (intro assign_offsets_sizes) (meson in_set_dropD)
  ultimately have 3: "\<forall>r\<in>set (regions L'). unat (page_size cfg) dvd unat (region_size r)"
    unfolding rs' using new by auto
  have 4: "\<forall>n k. region_idx_by_name L' n = Some k \<longrightarrow> k < length (regions L')"
    unfolding len using inv by (simp add: L' layout_inv_def)
  have 5: "device_size L' = d" by (simp add: L')
  show ?thesis
    unfolding layout_inv_def len using 1 2 3 4 5 d len by simp
qed

lemma build_sizes:
  "\<forall>r\<in>set (map (\<lambda>(R, g, h, m). ValidateAndBuildLayout cfg R g h m) specs).
     unat (page_size cfg) dvd unat (region_size r)"
  by (auto simp: ValidateAndBuildLayout_def Let_def GetMinRegionSize_dvd)

lemma reachable_inv: "reachable cfg L \<Longrightarrow> layout_inv cfg L"
proof (induction rule: reachable.induct)
  case (constructed specs L)
  then show ?case using build_sizes by (rule ctor_inv)
next
  case (resized L name new_min_size L')
  then show ?case using resize_inv by blast
qed

section \<open>Evaluating the planner on small inputs\<close>

lemma AlignToPowerOf2_examples:
  "AlignToPowerOf2 0 = Some 1"
  "AlignToPowerOf2 0x1000 = Some 0x1000"
  "AlignToPowerOf2 0x2000 = Some 0x2000"
  "AlignToPowerOf2 0x3000 = Some 0x4000"
  "AlignToPowerOf2 0x100000000 = Some 1"
  by code_simp+

lemma example_build:
  "ValidateAndBuildLayout example_platform (name, 100) 2 2 mgr = example_region name mgr 0 0x1000"
  by (simp add: ValidateAndBuildLayout_def example_region_def GetMinRegionSize_def
      GetOffsetOfRegionData_def plus_assign_def signal_table_bytes_def sizeof_uint32_t_def
      AlignToPageSize_def example_platform_def)

lemma AlignToPowerOf2_example_4: "AlignToPowerOf2 0x4000 = Some 0x4000"
  by code_simp

lemmas example_simps =
  ResizeRegion_def GetMinRegionSize_def GetOffsetOfRegionData_def plus_assign_def
  signal_table_bytes_def sizeof_uint32_t_def AlignToPageSize_def example_platform_def
  UpdateRegionOffsetsAndDeviceSize_def UpdateRegionOffsets_loop_eq AlignToPowerOf2_examples
  example_region_def VSoCMemoryLayoutImpl_ctor_def GetNameToIndexMap_def

lemma ctor_ab:
  "VSoCMemoryLayoutImpl_ctor example_platform
     [ValidateAndBuildLayout example_platform (''a'', 100) 2 2 None,
      ValidateAndBuildLayout example_platform (''b'', 100) 2 2 None] = Some (Inr layout_ab)"
  apply (simp add: example_build VSoCMemoryLayoutImpl_ctor_def GetNameToIndexMap_def)
  apply (simp add: example_region_def UpdateRegionOffsetsAndDeviceSize_def UpdateRegionOffsets_loop_eq)
  apply (simp add: plus_assign_def AlignToPageSize_def example_platform_def AlignToPowerOf2_examples layout_ab_def example_region_def)
  done

lemma resize_ab:
  "ResizeRegion example_platform layout_ab ''a'' 0xFFFFF000 = Some (True, layout_ab_wrapped)"
  apply (simp add: ResizeRegion_def layout_ab_def example_region_def GetMinRegionSize_def
      GetOffsetOfRegionData_def plus_assign_def signal_table_bytes_def sizeof_uint32_t_def
      AlignToPageSize_def example_platform_def)
  apply (simp add: UpdateRegionOffsetsAndDeviceSize_def UpdateRegionOffsets_loop_eq plus_assign_def AlignToPowerOf2_examples layout_ab_wrapped_def example_region_def)
  done

lemma ctor_a:
  "VSoCMemoryLayoutImpl_ctor example_platform
     [ValidateAndBuildLayout example_platform (''a'', 100) 2 2 None] = Some (Inr layout_a)"
  by (simp add: example_build) (simp add: example_simps layout_a_def)

lemma resize_a_grow:
  "ResizeRegion example_platform layout_a ''a'' 0x2000 = Some (True, layout_a_resized)"
  by (simp add: example_simps layout_a_def layout_a_resized_def)

lemma resize_a_shrink:
  "ResizeRegion example_platform layout_a_resized ''a'' 1 = Some (True, layout_a)"
  by (simp add: example_simps layout_a_def layout_a_resized_def)

lemma resize_a_wrap:
  "ResizeRegion example_platform layout_a ''a'' 0xFFFFF000 = Some (True, layout_a_wrapped)"
  by (simp add: example_simps layout_a_def layout_a_wrapped_def Let_def)

lemma reachable_layout_ab: "reachable example_platform layout_ab"
  by (rule reachable.constructed [where specs = "[((''a'', 100), 2, 2, None), ((''b'', 100), 2, 2, None)]"])
    (simp add: ctor_ab)

lemma reachable_layout_a: "reachable example_platform layout_a"
  by (rule reachable.constructed [where specs = "[((''a'', 100), 2, 2, None)]"])
    (simp add: ctor_a)

lemma resize_ab_grow:
  "ResizeRegion example_platform layout_ab ''a'' 0x2000 = Some (True, layout_ab_resized)"
  by (simp add: example_simps layout_ab_def layout_ab_resized_def Let_def AlignToPowerOf2_example_4)

section \<open>When the constructor is fatal\<close>

lemma GetNameToIndexMap_loop_dom:
  "GetNameToIndexMap_loop rs index result = Inr m \<Longrightarrow> dom m = dom result \<union> region_name ` set rs"
proof (induction rs arbitrary: index result)
  case Nil
  then show ?case by simp
next
  case (Cons r rs)
  from Cons.prems have "GetNameToIndexMap_loop rs (index + 1) (result(region_name r \<mapsto> index)) = Inr m"
    by (simp split: if_splits)
  from Cons.IH [OF this] show ?case by auto
qed

lemma GetNameToIndexMap_loop_fatal_iff:
  "(\<exists>e. GetNameToIndexMap_loop rs index result = Inl e) \<longleftrightarrow>
     \<not> distinct (map region_name rs) \<or> dom result \<inter> region_name ` set rs \<noteq> {}"
proof (induction rs arbitrary: index result)
  case Nil
  then show ?case by simp
next
  case (Cons r rs)
  show ?case
  proof (cases "result (region_name r) = None")
    case True
    then have step: "GetNameToIndexMap_loop (r # rs) index result =
        GetNameToIndexMap_loop rs (index + 1) (result(region_name r \<mapsto> index))"
      by simp
    have "(\<exists>e. GetNameToIndexMap_loop (r # rs) index result = Inl e) \<longleftrightarrow>
       \<not> distinct (map region_name rs) \<or> dom (result(region_name r \<mapsto> index)) \<inter> region_name ` set rs \<noteq> {}"
      by (simp only: step Cons.IH)
    also have "\<dots> \<longleftrightarrow> \<not> distinct (map region_name (r # rs)) \<or> dom result \<inter> region_name ` set (r # rs) \<noteq> {}"
      using True by auto
    finally show ?thesis .
  next
    case False
    then show ?thesis by auto
  qed
qed

lemma check_managed_by_fatal_iff:
  "(\<exists>e. check_managed_by idx rs = Some e) \<longleftrightarrow>
     (\<exists>r\<in>set rs. \<exists>m. managed_by r = Some m \<and> idx m = None)"
  by (induction rs) (auto split: option.splits)

lemma ctor_fatal_iff:
  "(\<exists>e. VSoCMemoryLayoutImpl_ctor cfg rs = Some (Inl e)) \<longleftrightarrow>
     \<not> distinct (map region_name rs) \<or>
     (\<exists>r\<in>set rs. \<exists>m. managed_by r = Some m \<and> m \<notin> region_name ` set rs)"
proof (cases "GetNameToIndexMap rs")
  case (Inl e)
  then have "\<not> distinct (map region_name rs)"
    using GetNameToIndexMap_loop_fatal_iff [of rs 0 Map.empty] by (auto simp: GetNameToIndexMap_def)
  then show ?thesis using Inl by (simp add: VSoCMemoryLayoutImpl_ctor_def)
next
  case (Inr idx)
  then have d: "distinct (map region_name rs)"
    using GetNameToIndexMap_loop_fatal_iff [of rs 0 Map.empty] by (auto simp: GetNameToIndexMap_def)
  have dom: "dom idx = region_name ` set rs"
    using Inr GetNameToIndexMap_loop_dom [of rs 0 Map.empty idx] by (simp add: GetNameToIndexMap_def)
  have "(\<exists>e. VSoCMemoryLayoutImpl_ctor cfg rs = Some (Inl e)) \<longleftrightarrow> (\<exists>e. check_managed_by idx rs = Some e)"
    using Inr by (auto simp: VSoCMemoryLayoutImpl_ctor_def Let_def split: option.splits)
  also have "\<dots> \<longleftrightarrow> (\<exists>r\<in>set rs. \<exists>m. managed_by r = Some m \<and> m \<notin> region_name ` set rs)"
    unfolding check_managed_by_fatal_iff dom [symmetric] by (simp add: domIff)
  finally show ?thesis using d by simp
qed

lemma assign_offsets_managed_by:
  "map managed_by (assign_offsets rs offset) = map managed_by rs"
  by (induction rs arbitrary: offset) simp_all

lemma ctor_managers_known:
  assumes "VSoCMemoryLayoutImpl_ctor cfg rs = Some (Inr L)"
  shows "\<forall>mo\<in>set (map managed_by (regions L)). \<forall>m. mo = Some m \<longrightarrow> region_idx_by_name L m \<noteq> None"
proof -
  from assms obtain idx where idx: "GetNameToIndexMap rs = Inr idx"
    by (auto simp: VSoCMemoryLayoutImpl_ctor_def split: sum.splits)
  with assms have chk: "check_managed_by idx rs = None"
    by (auto simp: VSoCMemoryLayoutImpl_ctor_def split: option.splits)
  let ?start = "first_offset cfg (length rs)"
  from assms idx chk have
    "UpdateRegionOffsetsAndDeviceSize \<lparr>regions = rs, region_idx_by_name = idx, device_size = 0\<rparr> ?start 0 = Some L"
    by (auto simp: VSoCMemoryLayoutImpl_ctor_def first_offset_def Let_def)
  then have L: "regions L = assign_offsets rs ?start" "region_idx_by_name L = idx"
    by (auto simp: UpdateRegionOffsetsAndDeviceSize_def UpdateRegionOffsets_loop_eq split: option.splits)
  from chk have "\<not> (\<exists>r\<in>set rs. \<exists>m. managed_by r = Some m \<and> idx m = None)"
    using check_managed_by_fatal_iff [of idx rs] by simp
  then show ?thesis
    unfolding L assign_offsets_managed_by by auto
qed

lemma resize_managers:
  assumes "layout_inv cfg L" and "ResizeRegion cfg L name sz = Some (True, L')"
  shows "map managed_by (regions L') = map managed_by (regions L)
       \<and> region_idx_by_name L' = region_idx_by_name L"
proof -
  let ?new = "ucast (AlignToPageSize cfg (ucast sz)) :: size_t"
  from assms(2) obtain k d where k: "region_idx_by_name L name = Some k"
    and L': "L' = L\<lparr>regions :=
              take (k + 1) ((regions L)[k := (regions L ! k)\<lparr>region_size := ?new\<rparr>])
              @ assign_offsets (drop (k + 1) (regions L)) (plus_assign (begin_offset (regions L ! k)) ?new),
            device_size := d\<rparr>"
    by (rule ResizeRegion_TrueE)
  from assms(1) k have klen: "k < length (regions L)" by (auto simp: layout_inv_def)
  have "map managed_by (regions L') =
          map managed_by (take k (regions L)) @ managed_by (regions L ! k)
            # map managed_by (drop (k + 1) (regions L))"
    using klen by (simp add: L' take_Suc_update assign_offsets_managed_by)
  also have "\<dots> = map managed_by (take k (regions L) @ regions L ! k # drop (k + 1) (regions L))"
    by simp
  also have "\<dots> = map managed_by (regions L)"
    using klen by (simp only: id_take_nth_drop [symmetric] Suc_eq_plus1 [symmetric])
  finally show ?thesis by (simp add: L')
qed

lemma reachable_managers_known_aux:
  "reachable cfg L \<Longrightarrow>
   \<forall>mo\<in>set (map managed_by (regions L)). \<forall>m. mo = Some m \<longrightarrow> region_idx_by_name L m \<noteq> None"
proof (induction rule: reachable.induct)
  case (constructed specs L)
  then show ?case by (rule ctor_managers_known)
next
  case (resized L name new_min_size L')
  from resized(1) have "layout_inv cfg L" by (rule reachable_inv)
  from resize_managers [OF this resized(2)] resized(3) show ?case by simp
qed

lemma reachable_managers_known:
  "reachable cfg L \<Longrightarrow>
   \<forall>r\<in>set (regions L). \<forall>m. managed_by r = Some m \<longrightarrow> region_idx_by_name L m \<noteq> None"
  using reachable_managers_known_aux [of cfg L] by auto

section \<open>Writing the descriptors\<close>

lemma ucast_sizeof_uint32_t: "(ucast sizeof_uint32_t :: uint32_t) = 4"
  by (simp add: sizeof_uint32_t_def)

lemma ucast_two_sizeof_uint32_t: "(ucast (2 * sizeof_uint32_t) :: uint32_t) = 8"
  by (simp add: sizeof_uint32_t_def)

lemma signal_tables_end:
  "snd (WriteSignalTableDescription t2
          (snd (WriteSignalTableDescription t1 0 (guest_to_host_signal_table_log_size r)))
          (host_to_guest_signal_table_log_size r)) = GetOffsetOfRegionData r"
  by (simp add: WriteSignalTableDescription_def GetOffsetOfRegionData_def Let_def plus_assign_eq
      ucast_sizeof_uint32_t ucast_two_sizeof_uint32_t)

lemma WriteRegionDescription_Inr:
  "WriteRegionDescription cfg d r = Inr (written_description cfg d r)"
  by (simp add: written_description_def WriteRegionDescription_def Let_def signal_tables_end)

lemma written_description_fields:
  "region_begin_offset (written_description cfg d r) = begin_offset r"
  "region_end_offset (written_description cfg d r)
     = ucast ((ucast (begin_offset r) :: size_t) + region_size r)"
  "offset_of_region_data (written_description cfg d r) = GetOffsetOfRegionData r"
  "device_name (written_description cfg d r) = take (VSOC_DEVICE_NAME_SZ cfg - 1) (region_name r)"
  "current_version (written_description cfg d r) = 0"
  "min_compatible_version (written_description cfg d r) = 0"
  by (simp_all add: written_description_def WriteRegionDescription_def Let_def signal_tables_end)

lemma unat_end_offset:
  "unat (ucast ((ucast (b :: uint32_t) :: size_t) + s) :: uint32_t) = (unat b + unat s) mod 2 ^ 32"
  using unat_plus_assign [of b s] by (simp only: plus_assign_def)

lemma unat_pow2_mod_64: "unat ((2::64 word) ^ k) = 2 ^ k mod 2 ^ 64"
proof -
  have "(2::64 word) ^ k = of_nat (2 ^ k)" by simp
  then show ?thesis by (simp only: unat_of_nat) simp
qed

lemma ucast_signal_table_bytes: "(ucast (signal_table_bytes n) :: uint32_t) = 4 * 2 ^ n"
proof (rule unsigned_word_eqI [where ?'a = nat])
  have "unat (signal_table_bytes n) = (2 ^ n mod 2 ^ 64 * 4) mod 2 ^ 64"
    by (simp add: signal_table_bytes_def sizeof_uint32_t_def unat_word_ariths
        push_bit_eq_mult unat_pow2_mod_64)
  also have "\<dots> = (2 ^ n * 4) mod 2 ^ 64"
    by (simp only: mod_mult_left_eq)
  finally have "unat (ucast (signal_table_bytes n) :: uint32_t) = (2 ^ n * 4) mod 2 ^ 64 mod 2 ^ 32"
    by (simp only: unat_ucast_64_32)
  also have "\<dots> = (2 ^ n * 4) mod 2 ^ 32"
    by (rule mod_mod_cancel) simp
  also have "\<dots> = unat (4 * 2 ^ n :: uint32_t)"
    by (simp add: unat_word_ariths unat_pow2_mod mod_simps mult.commute)
  finally show "unat (ucast (signal_table_bytes n) :: uint32_t) = unat (4 * 2 ^ n :: uint32_t)" .
qed

lemma GetOffsetOfRegionData_eq:
  "GetOffsetOfRegionData r =
     4 * 2 ^ guest_to_host_signal_table_log_size r + 4 * 2 ^ host_to_guest_signal_table_log_size r + 8"
  by (simp add: GetOffsetOfRegionData_def Let_def plus_assign_eq ucast_signal_table_bytes
      ucast_two_sizeof_uint32_t)

lemma WriteLayout_loop_step:
  "idx < length (regions L) \<Longrightarrow>
   WriteLayout_loop cfg L descs idx =
     (case managed_by (regions L ! idx) of
        Some m \<Rightarrow>
          (case region_idx_by_name L m of
             None \<Rightarrow> Inl (MapAtOutOfRange m)
           | Some k \<Rightarrow>
               if k = VSOC_REGION_WHOLE cfg
               then Inl (OwnerIsRegionWhole (region_name (regions L ! idx)) m)
               else WriteLayout_loop cfg L
                      (descs[idx := (written_description cfg (descs ! idx) (regions L ! idx))
                                      \<lparr>managed_by_field := k\<rparr>]) (idx + 1))
      | None \<Rightarrow>
          WriteLayout_loop cfg L
            (descs[idx := (written_description cfg (descs ! idx) (regions L ! idx))
                            \<lparr>managed_by_field := VSOC_REGION_WHOLE cfg\<rparr>]) (idx + 1))"
  by (subst WriteLayout_loop.simps) (simp add: WriteRegionDescription_Inr)

lemma WriteLayout_loop_done:
  "\<not> idx < length (regions L) \<Longrightarrow> WriteLayout_loop cfg L descs idx = Inr descs"
  by (subst WriteLayout_loop.simps) simp

lemma WriteLayout_loop_ok:
  assumes "\<forall>i. idx \<le> i \<and> i < length (regions L) \<longrightarrow>
             (\<forall>m. managed_by (regions L ! i) = Some m \<longrightarrow>
                (\<exists>k. region_idx_by_name L m = Some k \<and> k \<noteq> VSOC_REGION_WHOLE cfg))"
    and "length (regions L) \<le> length descs"
  shows "\<exists>descs'. WriteLayout_loop cfg L descs idx = Inr descs' \<and> length descs' = length descs \<and>
           (\<forall>i. idx \<le> i \<and> i < length (regions L) \<longrightarrow>
              descs' ! i = (written_description cfg (descs ! i) (regions L ! i))
                \<lparr>managed_by_field :=
                   (case managed_by (regions L ! i) of
                      None \<Rightarrow> VSOC_REGION_WHOLE cfg
                    | Some m \<Rightarrow> the (region_idx_by_name L m))\<rparr>) \<and>
           (\<forall>i<idx. descs' ! i = descs ! i)"
  using assms
proof (induction "length (regions L) - idx" arbitrary: idx descs)
  case 0
  then have ge: "\<not> idx < length (regions L)" by simp
  then have none: "\<And>i. idx \<le> i \<and> i < length (regions L) \<Longrightarrow> False" by simp
  have "WriteLayout_loop cfg L descs idx = Inr descs" using ge by (rule WriteLayout_loop_done)
  then show ?case using none by blast
next
  case (Suc n)
  then have lt: "idx < length (regions L)" by simp
  let ?r = "regions L ! idx"
  let ?v = "case managed_by ?r of None \<Rightarrow> VSOC_REGION_WHOLE cfg | Some m \<Rightarrow> the (region_idx_by_name L m)"
  let ?d = "(written_description cfg (descs ! idx) ?r)\<lparr>managed_by_field := ?v\<rparr>"
  have step: "WriteLayout_loop cfg L descs idx = WriteLayout_loop cfg L (descs[idx := ?d]) (idx + 1)"
  proof (cases "managed_by ?r")
    case None
    then show ?thesis using lt by (simp add: WriteLayout_loop_step)
  next
    case (Some m)
    then obtain k where "region_idx_by_name L m = Some k" "k \<noteq> VSOC_REGION_WHOLE cfg"
      using Suc.prems(1) lt by blast
    then show ?thesis using lt Some by (simp add: WriteLayout_loop_step)
  qed
  have n: "n = length (regions L) - (idx + 1)" using Suc(2) by simp
  have pre: "\<forall>i. idx + 1 \<le> i \<and> i < length (regions L) \<longrightarrow>
             (\<forall>m. managed_by (regions L ! i) = Some m \<longrightarrow>
                (\<exists>k. region_idx_by_name L m = Some k \<and> k \<noteq> VSOC_REGION_WHOLE cfg))"
    using Suc.prems(1) by (metis Suc_leD Suc_eq_plus1)
  have len: "length (regions L) \<le> length (descs[idx := ?d])" using Suc.prems(2) by simp
  from Suc(1) [OF n pre len] obtain descs' where
    r: "WriteLayout_loop cfg L (descs[idx := ?d]) (idx + 1) = Inr descs'"
    and l: "length descs' = length (descs[idx := ?d])"
    and hi: "\<forall>i. idx + 1 \<le> i \<and> i < length (regions L) \<longrightarrow>
              descs' ! i = (written_description cfg (descs[idx := ?d] ! i) (regions L ! i))
                \<lparr>managed_by_field :=
                   (case managed_by (regions L ! i) of
                      None \<Rightarrow> VSOC_REGION_WHOLE cfg
                    | Some m \<Rightarrow> the (region_idx_by_name L m))\<rparr>"
    and lo: "\<forall>i<idx + 1. descs' ! i = descs[idx := ?d] ! i"
    by blast
  have at: "descs' ! idx = ?d"
    using lo lt Suc.prems(2) by simp
  have hi': "descs' ! i = (written_description cfg (descs ! i) (regions L ! i))
                \<lparr>managed_by_field :=
                   (case managed_by (regions L ! i) of
                      None \<Rightarrow> VSOC_REGION_WHOLE cfg
                    | Some m \<Rightarrow> the (region_idx_by_name L m))\<rparr>"
    if "idx \<le> i \<and> i < length (regions L)" for i
  proof (cases "i = idx")
    case True
    then show ?thesis using at by simp
  next
    case False
    then have "idx + 1 \<le> i \<and> i < length (regions L)" using that by simp
    then show ?thesis using hi False by simp
  qed
  have lo': "\<forall>i<idx. descs' ! i = descs ! i"
    using lo by simp
  show ?case
    unfolding step using r l hi' lo' by simp
qed

lemma WriteLayout_loop_fatal:
  assumes "idx \<le> i" "i < length (regions L)" "managed_by (regions L ! i) = Some m"
    "region_idx_by_name L m = Some (VSOC_REGION_WHOLE cfg)"
    and "\<forall>j<length (regions L). \<forall>m. managed_by (regions L ! j) = Some m \<longrightarrow> region_idx_by_name L m \<noteq> None"
  shows "\<exists>n m. WriteLayout_loop cfg L descs idx = Inl (OwnerIsRegionWhole n m)"
  using assms(1)
proof (induction "i - idx" arbitrary: idx descs)
  case 0
  then have "idx = i" by simp
  then show ?case using assms(2,3,4) by (simp add: WriteLayout_loop_step)
next
  case (Suc n)
  then have lt: "idx < length (regions L)" and n: "n = i - (idx + 1)" and le: "idx + 1 \<le> i"
    using assms(2) by simp_all
  note IH = Suc(1) [OF n le]
  show ?case
  proof (cases "managed_by (regions L ! idx)")
    case None
    then show ?thesis using lt IH by (simp add: WriteLayout_loop_step)
  next
    case (Some m')
    then obtain k where k: "region_idx_by_name L m' = Some k"
      using assms(5) lt by blast
    show ?thesis
    proof (cases "k = VSOC_REGION_WHOLE cfg")
      case True
      then show ?thesis using lt Some k by (simp add: WriteLayout_loop_step)
    next
      case False
      then show ?thesis using lt Some k IH by (simp add: WriteLayout_loop_step)
    qed
  qed
qed

lemma written_a:
  "written_description example_platform d (example_region name None b s)
     = d\<lparr> current_version := 0, min_compatible_version := 0, region_begin_offset := b,
          region_end_offset := ucast ((ucast b :: size_t) + s), offset_of_region_data := 40,
          device_name := take 15 name,
          guest_to_host_signal_table := (guest_to_host_signal_table d)
            \<lparr> num_nodes_lg2 := 2, futex_uaddr_table_offset := 0, interrupt_signalled_offset := 16 \<rparr>,
          host_to_guest_signal_table := (host_to_guest_signal_table d)
            \<lparr> num_nodes_lg2 := 2, futex_uaddr_table_offset := 20, interrupt_signalled_offset := 36 \<rparr> \<rparr>"
  by (simp add: written_description_def WriteRegionDescription_def
        WriteSignalTableDescription_def GetOffsetOfRegionData_def plus_assign_def
        signal_table_bytes_def sizeof_uint32_t_def Let_def example_region_def example_platform_def)

lemma WriteLayout_loop_step_None:
  "idx < length (regions L) \<Longrightarrow> managed_by (regions L ! idx) = None \<Longrightarrow>
   WriteLayout_loop cfg L descs idx =
     WriteLayout_loop cfg L
       (descs[idx := (written_description cfg (descs ! idx) (regions L ! idx))
                       \<lparr>managed_by_field := VSOC_REGION_WHOLE cfg\<rparr>]) (Suc idx)"
  by (simp add: WriteLayout_loop_step)

lemma loop_ab_wrapped:
  "WriteLayout_loop example_platform layout_ab_wrapped (region_descriptions example_memory) 0
     = Inr (region_descriptions memory_ab_wrapped)"
proof -
  have len: "0 < length (regions layout_ab_wrapped)" "Suc 0 < length (regions layout_ab_wrapped)"
    "\<not> Suc (Suc 0) < length (regions layout_ab_wrapped)"
    by (simp_all add: layout_ab_wrapped_def)
  have r: "regions layout_ab_wrapped ! 0 = example_region ''a'' None 0x1000 0xFFFFF000"
    "regions layout_ab_wrapped ! Suc 0 = example_region ''b'' None 0 0x1000"
    by (simp_all add: layout_ab_wrapped_def)
  have m: "managed_by (regions layout_ab_wrapped ! 0) = None"
    "managed_by (regions layout_ab_wrapped ! Suc 0) = None"
    by (simp_all add: r example_region_def)
  have w: "VSOC_REGION_WHOLE example_platform = 0" by (simp add: example_platform_def)
  have rep: "replicate 2 x = [x, x]" for x :: vsoc_device_region
    by (simp add: numeral_2_eq_2)
  show ?thesis
    by (simp only: WriteLayout_loop_step_None [OF len(1) m(1)]
          WriteLayout_loop_step_None [OF len(2) m(2)] WriteLayout_loop_done [OF len(3)] r)
      (simp add: written_a example_memory_def memory_ab_wrapped_def w rep)
qed

lemma WriteLayout_ab_wrapped:
  "WriteLayout example_platform layout_ab_wrapped example_memory = Inr memory_ab_wrapped"
  by (simp add: WriteLayout_def Let_def loop_ab_wrapped)
    (simp add: memory_ab_wrapped_def example_memory_def example_platform_def
      GetMemoryFileSize_def layout_ab_wrapped_def)

section \<open>The pumping loop and the dial loop\<close>

lemma Send_fields [simp]:
  "send_results (snd (Send s buf)) = send_results s"
  "send_calls (snd (Send s buf)) = send_calls s + 1"
  "is_open (snd (Send s buf)) = is_open s"
  "shut_wr (snd (Send s buf)) = shut_wr s"
  by (simp_all add: Send_def Let_def)

lemma SendAll_loop_zero:
  "\<exists>i. send_calls s \<le> i \<and> i < send_calls (snd (SendAll_loop s p w)) \<and> send_results s i = 0 \<Longrightarrow>
   0 \<le> w \<Longrightarrow> sent s = pre @ take (nat w) (payload p) \<Longrightarrow>
   fst (SendAll_loop s p w) = 0 \<and>
   (\<exists>n<payload_length p. sent (snd (SendAll_loop s p w)) = pre @ take n (payload p))"
proof (induction s p w rule: SendAll_loop.induct)
  case (1 s p w)
  show ?case
  proof (cases "w < int (payload_length p) \<and> IsOpen s")
    case False
    then have "snd (SendAll_loop s p w) = s"
      by (subst SendAll_loop.simps) auto
    then show ?thesis using "1.prems"(1) by auto
  next
    case True
    obtain jw s' where send: "Send s (drop (nat w) (payload p)) = (jw, s')"
      by (cases "Send s (drop (nat w) (payload p))")
    let ?r = "send_results s (send_calls s)"
    have wlt: "nat w < length (payload p)"
      using True "1.prems"(2) by (simp add: payload_length_def nat_less_iff)
    then have "0 < length (drop (nat w) (payload p))"
      by simp
    then have len: "0 < int (length (drop (nat w) (payload p)))"
      by (simp only: of_nat_0_less_iff)
    have jw: "jw = (if int (length (drop (nat w) (payload p))) < ?r then int (length (drop (nat w) (payload p))) else ?r)"
      and s': "s' = s\<lparr>send_calls := send_calls s + 1, sent := sent s @ take (nat jw) (drop (nat w) (payload p))\<rparr>"
      using send by (auto simp: Send_def Let_def)
    show ?thesis
    proof (cases "jw \<le> 0")
      case stop: True
      then have res: "SendAll_loop s p w = (jw, s')"
        using True send by (subst SendAll_loop.simps) simp
      have "send_results s (send_calls s) = 0"
        using "1.prems"(1) unfolding res by (auto simp: s' less_Suc_eq_le)
      then have "jw = 0" using jw len by simp
      moreover have "sent s' = pre @ take (nat w) (payload p)"
        using s' \<open>jw = 0\<close> "1.prems"(3) by simp
      moreover have "nat w < payload_length p" using wlt by (simp add: payload_length_def)
      ultimately show ?thesis unfolding res by auto
    next
      case go: False
      then have res: "SendAll_loop s p w = SendAll_loop s' p (w + jw)"
        using True send by (subst SendAll_loop.simps) simp
      have rpos: "send_results s (send_calls s) \<noteq> 0" using go jw by (auto split: if_splits)
      from "1.prems"(1) obtain i where i: "send_calls s \<le> i" "i < send_calls (snd (SendAll_loop s' p (w + jw)))"
        "send_results s i = 0"
        unfolding res by blast
      with rpos have "i \<noteq> send_calls s" by auto
      with i have a: "\<exists>i. send_calls s' \<le> i \<and> i < send_calls (snd (SendAll_loop s' p (w + jw))) \<and> send_results s' i = 0"
        by (intro exI [of _ i]) (auto simp: s')
      have b: "0 \<le> w + jw" using go "1.prems"(2) by simp
      have "take (nat w) (payload p) @ take (nat jw) (drop (nat w) (payload p)) = take (nat w + nat jw) (payload p)"
        by (simp add: take_add)
      moreover have "nat w + nat jw = nat (w + jw)" using go "1.prems"(2) by (simp add: nat_add_distrib)
      ultimately have c: "sent s' = pre @ take (nat (w + jw)) (payload p)"
        using s' "1.prems"(3) by simp
      have cond: "w < int (payload_length p)" "\<not> \<not> IsOpen s" "(jw, s') = Send s (drop (nat w) (payload p))" "\<not> jw \<le> 0"
        using True go send by simp_all
      from "1.IH" [OF cond a b c] show ?thesis unfolding res .
    qed
  qed
qed

lemma SendAll_loop_positive:
  "\<forall>i. 0 < send_results s i \<Longrightarrow> IsOpen s \<Longrightarrow> 0 \<le> w \<Longrightarrow> w \<le> int (payload_length p) \<Longrightarrow>
   fst (SendAll_loop s p w) = int (payload_length p) \<and>
   sent (snd (SendAll_loop s p w)) = sent s @ drop (nat w) (payload p) \<and>
   send_results (snd (SendAll_loop s p w)) = send_results s \<and>
   IsOpen (snd (SendAll_loop s p w)) \<and>
   shut_wr (snd (SendAll_loop s p w)) = shut_wr s"
proof (induction s p w rule: SendAll_loop.induct)
  case (1 s p w)
  show ?case
  proof (cases "w < int (payload_length p)")
    case False
    then have "SendAll_loop s p w = (w, s)" by (subst SendAll_loop.simps) simp
    moreover from False "1.prems"(4) have "w = int (payload_length p)" by simp
    ultimately show ?thesis using "1.prems"(2) by (simp add: payload_length_def)
  next
    case True
    obtain jw s' where send: "Send s (drop (nat w) (payload p)) = (jw, s')"
      by (cases "Send s (drop (nat w) (payload p))")
    let ?r = "send_results s (send_calls s)"
    let ?buf = "drop (nat w) (payload p)"
    have wlt: "nat w < length (payload p)"
      using True "1.prems"(3) by (simp add: payload_length_def nat_less_iff)
    then have "0 < length ?buf" by simp
    then have len: "0 < int (length ?buf)" by (simp only: of_nat_0_less_iff)
    have jw: "jw = (if int (length ?buf) < ?r then int (length ?buf) else ?r)"
      and s': "s' = s\<lparr>send_calls := send_calls s + 1, sent := sent s @ take (nat jw) ?buf\<rparr>"
      using send by (auto simp: Send_def Let_def)
    have rpos: "0 < ?r" using "1.prems"(1) by simp
    have pos: "0 < jw" and le: "jw \<le> int (length ?buf)" using jw rpos len by auto
    have res: "SendAll_loop s p w = SendAll_loop s' p (w + jw)"
      using True send pos "1.prems"(2) by (subst SendAll_loop.simps) simp
    have a: "\<forall>i. 0 < send_results s' i" using "1.prems"(1) by (simp add: s')
    have b: "IsOpen s'" using "1.prems"(2) by (simp add: s' IsOpen_def)
    have c: "0 \<le> w + jw" using pos "1.prems"(3) by simp
    have "int (length ?buf) = int (payload_length p) - w"
      using wlt "1.prems"(3) by (simp add: payload_length_def)
    then have d: "w + jw \<le> int (payload_length p)" using le by simp
    have cond: "w < int (payload_length p)" "\<not> \<not> IsOpen s" "(jw, s') = Send s ?buf" "\<not> jw \<le> 0"
      using True "1.prems"(2) pos send by simp_all
    note IH = "1.IH" [OF cond a b c d]
    have "nat (w + jw) = nat w + nat jw" using pos "1.prems"(3) by (simp add: nat_add_distrib)
    then have "take (nat jw) ?buf @ drop (nat (w + jw)) (payload p) = ?buf"
      by (simp add: add.commute [of "nat w"] drop_drop [symmetric] del: drop_drop)
    then have "sent s' @ drop (nat (w + jw)) (payload p) = sent s @ ?buf"
      by (simp add: s')
    then show ?thesis
      unfolding res using IH by (simp add: s')
  qed
qed

lemma ShmToSocket_loop_positive:
  "\<forall>i. 0 < send_results s i \<Longrightarrow> IsOpen s \<Longrightarrow> \<forall>p\<in>set pre. \<not> IsEnd p \<Longrightarrow> IsEnd eos \<Longrightarrow>
   \<exists>s'. ShmToSocket_loop s (pre @ eos # rest) = (Returned, s') \<and>
        sent s' = sent s @ concat (map payload pre) \<and> shut_wr s' = shut_wr s"
proof (induction pre arbitrary: s)
  case Nil
  then show ?case by simp
next
  case (Cons p pre)
  obtain r s1 where sa: "SendAll s p = (r, s1)" by (cases "SendAll s p")
  from SendAll_loop_positive [OF Cons.prems(1,2), of 0 p] sa
  have r: "r = int (payload_length p)" and s1: "sent s1 = sent s @ payload p"
    "send_results s1 = send_results s" "IsOpen s1" "shut_wr s1 = shut_wr s"
    by (simp_all add: SendAll_def)
  have step: "ShmToSocket_loop s ((p # pre) @ eos # rest) = ShmToSocket_loop s1 (pre @ eos # rest)"
    using Cons.prems(3) sa r by simp
  have "\<forall>i. 0 < send_results s1 i" using Cons.prems(1) s1(2) by simp
  from Cons.IH [OF this s1(3) _ Cons.prems(4)] Cons.prems(3)
  obtain s' where "ShmToSocket_loop s1 (pre @ eos # rest) = (Returned, s')"
    "sent s' = sent s1 @ concat (map payload pre)" "shut_wr s' = shut_wr s1"
    by auto
  then show ?case unfolding step using s1 by simp
qed

lemma ShmToSocket_all_written:
  assumes "\<forall>i. 0 < send_results s i" "IsOpen s" "\<forall>p\<in>set pre. \<not> IsEnd p" "IsEnd eos"
  shows "\<exists>s'. ShmToSocket s (pre @ eos # rest) = (Returned, Some s') \<and>
           sent s' = sent s @ concat (map payload pre) \<and> shut_wr s'"
proof -
  from ShmToSocket_loop_positive [OF assms] obtain s' where
    "ShmToSocket_loop s (pre @ eos # rest) = (Returned, s')"
    "sent s' = sent s @ concat (map payload pre)"
    by blast
  then show ?thesis
    by (simp add: ShmToSocket_def SocketSender_dtor_def Shutdown_SHUT_WR_def)
qed

lemma ShmToSocket_stops_on_error:
  "\<not> IsEnd p \<Longrightarrow> fst (SendAll s p) < 0 \<Longrightarrow>
   ShmToSocket s (p # rest) = (Returned, Some (Shutdown_SHUT_WR (snd (SendAll s p))))"
  by (cases "SendAll s p") (simp add: ShmToSocket_def SocketSender_dtor_def)

lemma SendAll_example:
  "SendAll example_socket example_data_packet = (0, example_socket\<lparr>send_calls := 1\<rparr>)"
  by (simp add: example_data_packet_def example_socket_def SendAll_def
      SendAll_loop.simps payload_length_def IsOpen_def Send_def)

lemma SendAll_example_next:
  "SendAll (example_socket\<lparr>send_calls := 1\<rparr>) example_next_packet
     = (2, example_socket\<lparr>send_calls := 2, sent := [3, 4]\<rparr>)"
  by (simp add: example_next_packet_def example_socket_def SendAll_def
      SendAll_loop.simps payload_length_def IsOpen_def Send_def)

lemma OpenSocketConnection_loop_returns:
  "(\<forall>i<k. \<not> IsOpen (dial port (n + i))) \<Longrightarrow> IsOpen (dial port (n + k)) \<Longrightarrow>
   OpenSocketConnection_loop dial port n slept = Some (dial port (n + k), slept @ replicate k 1)"
proof (induction k arbitrary: n slept)
  case 0
  then show ?case by (subst OpenSocketConnection_loop.simps) simp
next
  case (Suc k)
  from Suc.prems(1) have closed: "\<not> IsOpen (dial port n)" by (metis add.right_neutral zero_less_Suc)
  have "\<forall>i<k. \<not> IsOpen (dial port (n + 1 + i))"
    using Suc.prems(1) by (metis Suc_less_eq add_Suc_right add_Suc_shift Suc_eq_plus1)
  moreover have "IsOpen (dial port (n + 1 + k))" using Suc.prems(2) by simp
  ultimately have "OpenSocketConnection_loop dial port (n + 1) (slept @ [1])
      = Some (dial port (n + 1 + k), (slept @ [1]) @ replicate k 1)"
    by (rule Suc.IH)
  then show ?case
    using closed by (subst OpenSocketConnection_loop.simps) (simp add: replicate_app_Cons_same)
qed

lemma OpenSocketConnection_loop_Some:
  assumes "OpenSocketConnection_loop dial0 port0 n0 slept0 = Some y0"
  shows "\<exists>k. y0 = (dial0 port0 (n0 + k), slept0 @ replicate k 1)
           \<and> IsOpen (dial0 port0 (n0 + k)) \<and> (\<forall>i<k. \<not> IsOpen (dial0 port0 (n0 + i)))"
proof (rule OpenSocketConnection_loop.raw_induct
    [where P = "\<lambda>dial port n slept y. \<exists>k. y = (dial port (n + k), slept @ replicate k 1)
           \<and> IsOpen (dial port (n + k)) \<and> (\<forall>i<k. \<not> IsOpen (dial port (n + i)))", OF _ assms])
  fix f :: "(int \<Rightarrow> nat \<Rightarrow> SharedFD) \<Rightarrow> int \<Rightarrow> nat \<Rightarrow> nat list \<Rightarrow> (SharedFD \<times> nat list) option"
    and dial port n slept y
  assume IH: "\<And>dial port n slept y. f dial port n slept = Some y \<Longrightarrow>
        \<exists>k. y = (dial port (n + k), slept @ replicate k 1)
           \<and> IsOpen (dial port (n + k)) \<and> (\<forall>i<k. \<not> IsOpen (dial port (n + i)))"
    and step: "(if IsOpen (dial port n) then Some (dial port n, slept)
                else f dial port (n + 1) (slept @ [1])) = Some y"
  show "\<exists>k. y = (dial port (n + k), slept @ replicate k 1)
           \<and> IsOpen (dial port (n + k)) \<and> (\<forall>i<k. \<not> IsOpen (dial port (n + i)))"
  proof (cases "IsOpen (dial port n)")
    case True
    then have "y = (dial port n, slept)" using step by simp
    then show ?thesis using True by (intro exI [of _ 0]) simp
  next
    case False
    then have "f dial port (n + 1) (slept @ [1]) = Some y" using step by simp
    from IH [OF this] obtain k where k: "y = (dial port (n + 1 + k), (slept @ [1]) @ replicate k 1)"
      "IsOpen (dial port (n + 1 + k))" "\<forall>i<k. \<not> IsOpen (dial port (n + 1 + i))"
      by blast
    have "\<not> IsOpen (dial port (n + i))" if "i < Suc k" for i
    proof (cases i)
      case 0
      then show ?thesis using False by simp
    next
      case (Suc j)
      then show ?thesis using k(3) that by simp
    qed
    then show ?thesis using k(1,2)
      by (intro exI [of _ "Suc k"]) (simp add: replicate_app_Cons_same)
  qed
qed

section \<open>The claims\<close>

text \<open>
  C1. The claim: construction is fatal whenever some \<open>managed_by\<close> names an unknown region,
  the region itself or a region declared later. The constructor looks every \<open>managed_by\<close>
  up in the map of all the names, built before its loop starts, so only an unknown name is
  fatal (\<open>ctor_fatal_iff\<close>). Evaluated here: with \<open>a\<close> managed by the later region \<open>b\<close>,
  and with \<open>a\<close> managed by itself, construction returns a layout.
\<close>

theorem ctor_accepts_later_and_self_manager:
  "VSoCMemoryLayoutImpl_ctor example_platform
     [ValidateAndBuildLayout example_platform (''a'', 100) 2 2 (Some ''b''),
      ValidateAndBuildLayout example_platform (''b'', 100) 2 2 None]
     = Some (Inr layout_a_managed_by_b)
   \<and> VSoCMemoryLayoutImpl_ctor example_platform
       [ValidateAndBuildLayout example_platform (''a'', 100) 2 2 (Some ''a'')]
     = Some (Inr layout_a_managed_by_a)"
  by (simp add: example_build)
    (simp add: example_simps layout_a_managed_by_b_def layout_a_managed_by_a_def)

text \<open>
  C2, as stated, fails: the begin offsets are \<open>uint32_t\<close> and the running offset wraps.
  Resizing \<open>a\<close> to \<open>0xFFFFF000\<close> bytes in the layout of \<open>a\<close> and \<open>b\<close> returns \<open>true\<close> and
  leaves \<open>b\<close> at offset 0, below \<open>a\<close>, which begins at \<open>0x1000\<close> and ends at \<open>2^32\<close>.
\<close>

theorem consecutive_regions_counterexample:
  "reachable example_platform layout_ab
   \<and> ResizeRegion example_platform layout_ab ''a'' 0xFFFFF000 = Some (True, layout_ab_wrapped)
   \<and> unat (begin_offset (regions layout_ab_wrapped ! 0))
       + unat (region_size (regions layout_ab_wrapped ! 0))
     \<noteq> unat (begin_offset (regions layout_ab_wrapped ! 1))
   \<and> begin_offset (regions layout_ab_wrapped ! 1) < begin_offset (regions layout_ab_wrapped ! 0)"
  using reachable_layout_ab resize_ab
  by (simp add: layout_ab_wrapped_def example_region_def)

text \<open>
  C2, amended. With a page size that is a power of two, every layout that the constructor
  returns, or that a \<open>ResizeRegion\<close> returning \<open>true\<close> leaves, is well-formed up to the
  32-bit wrap-around: the first region begins at the page-aligned size of the global header
  plus the descriptor table; every begin offset and every region size is a multiple of the
  page size; and the begin offset of region \<open>i + 1\<close> is the begin offset of region \<open>i\<close> plus
  its size, modulo \<open>2^32\<close>, hence exactly that sum whenever the sum is below \<open>2^32\<close>.
\<close>

theorem layout_well_formed_modulo_wraparound:
  assumes "reachable cfg L" and "page_size cfg = 2 ^ k" and "k < 32"
  shows "(regions L \<noteq> [] \<longrightarrow>
            begin_offset (regions L ! 0) =
              AlignToPageSize cfg
                (plus_assign (plus_assign 0 (sizeof_vsoc_shm_layout_descriptor cfg))
                   (of_nat (length (regions L)) * sizeof_vsoc_device_region cfg)))
       \<and> (\<forall>r\<in>set (regions L). unat (page_size cfg) dvd unat (begin_offset r)
                               \<and> unat (page_size cfg) dvd unat (region_size r))
       \<and> (\<forall>i. i + 1 < length (regions L) \<longrightarrow>
             unat (begin_offset (regions L ! (i + 1))) =
               (unat (begin_offset (regions L ! i)) + unat (region_size (regions L ! i))) mod 2 ^ 32)
       \<and> (\<forall>i. i + 1 < length (regions L)
              \<and> unat (begin_offset (regions L ! i)) + unat (region_size (regions L ! i)) < 2 ^ 32 \<longrightarrow>
             unat (begin_offset (regions L ! (i + 1))) =
               unat (begin_offset (regions L ! i)) + unat (region_size (regions L ! i)))"
proof -
  let ?start = "first_offset cfg (length (regions L))"
  from assms(1) have inv: "layout_inv cfg L" by (rule reachable_inv)
  then have a: "assign_offsets (regions L) ?start = regions L"
    and sz: "\<forall>r\<in>set (regions L). unat (page_size cfg) dvd unat (region_size r)"
    by (simp_all add: layout_inv_def)
  have p: "unat (page_size cfg) = 2 ^ k"
    using assms(2,3) by (simp add: unat_pow2_32)
  have "k \<le> 32" using assms(3) by simp
  then have dvd: "unat (page_size cfg) dvd (2::nat) ^ 32"
    unfolding p by (rule le_imp_power_dvd)
  have "unat (page_size cfg) dvd unat ?start"
    unfolding first_offset_def by (rule AlignToPageSize_dvd)
  with dvd have "\<forall>r\<in>set (assign_offsets (regions L) ?start). unat (page_size cfg) dvd unat (begin_offset r)"
    using sz by (rule assign_offsets_aligned)
  then have al: "\<forall>r\<in>set (regions L). unat (page_size cfg) dvd unat (begin_offset r)"
    by (simp only: a)
  have first: "regions L \<noteq> [] \<longrightarrow> begin_offset (regions L ! 0) = ?start"
    using assigned_first [OF a] by blast
  have cons: "\<forall>i. i + 1 < length (regions L) \<longrightarrow>
             unat (begin_offset (regions L ! (i + 1))) =
               (unat (begin_offset (regions L ! i)) + unat (region_size (regions L ! i))) mod 2 ^ 32"
    using assigned_consecutive [OF a] by (simp only: unat_plus_assign [symmetric]) simp
  have exact: "\<forall>i. i + 1 < length (regions L)
              \<and> unat (begin_offset (regions L ! i)) + unat (region_size (regions L ! i)) < 2 ^ 32 \<longrightarrow>
             unat (begin_offset (regions L ! (i + 1))) =
               unat (begin_offset (regions L ! i)) + unat (region_size (regions L ! i))"
    using cons by (metis mod_less)
  show ?thesis
    using first al sz cons exact unfolding first_offset_def by blast
qed

theorem layout_well_formed_modulo_wraparound_witness:
  "reachable example_platform layout_ab_wrapped
   \<and> page_size example_platform = 2 ^ 12
   \<and> begin_offset (regions layout_ab_wrapped ! 0) =
       AlignToPageSize example_platform
         (plus_assign (plus_assign 0 (sizeof_vsoc_shm_layout_descriptor example_platform))
            (of_nat (length (regions layout_ab_wrapped)) * sizeof_vsoc_device_region example_platform))
   \<and> unat (page_size example_platform) dvd unat (begin_offset (regions layout_ab_wrapped ! 0))
   \<and> unat (page_size example_platform) dvd unat (region_size (regions layout_ab_wrapped ! 0))
   \<and> unat (page_size example_platform) dvd unat (begin_offset (regions layout_ab_wrapped ! 1))
   \<and> unat (page_size example_platform) dvd unat (region_size (regions layout_ab_wrapped ! 1))
   \<and> unat (begin_offset (regions layout_ab_wrapped ! 1)) =
       (unat (begin_offset (regions layout_ab_wrapped ! 0))
        + unat (region_size (regions layout_ab_wrapped ! 0))) mod 2 ^ 32"
proof -
  have r: "reachable example_platform layout_ab_wrapped"
    using reachable_layout_ab resize_ab by (rule reachable.resized)
  have p: "page_size example_platform = 2 ^ 12"
    by (simp add: example_platform_def)
  have k: "(12::nat) < 32" by simp
  have n: "regions layout_ab_wrapped \<noteq> []" "0 + 1 < length (regions layout_ab_wrapped)"
    by (simp_all add: layout_ab_wrapped_def)
  have m: "regions layout_ab_wrapped ! 0 \<in> set (regions layout_ab_wrapped)"
    "regions layout_ab_wrapped ! 1 \<in> set (regions layout_ab_wrapped)"
    by (simp_all add: layout_ab_wrapped_def)
  from layout_well_formed_modulo_wraparound [OF r p k] r p n m show ?thesis
    by (metis add.left_neutral)
qed

text \<open>
  C3, as stated, fails: the size is compared after it has been rounded up to the page
  size. For region \<open>a\<close>, resized to two pages before, a request of 1 byte is below the
  minimum of \<open>0x1000\<close> bytes, and yet \<open>ResizeRegion\<close> returns \<open>true\<close> and shrinks the region
  and the device.
\<close>

theorem ResizeRegion_below_minimum_counterexample:
  "region_idx_by_name layout_a_resized ''a'' = Some 0
   \<and> (1 :: size_t) < GetMinRegionSize example_platform (regions layout_a_resized ! 0)
   \<and> ResizeRegion example_platform layout_a_resized ''a'' 1 = Some (True, layout_a)
   \<and> region_size (regions layout_a ! 0) \<noteq> region_size (regions layout_a_resized ! 0)
   \<and> device_size layout_a \<noteq> device_size layout_a_resized"
  using resize_a_shrink
  by (simp add: layout_a_def layout_a_resized_def example_region_def GetMinRegionSize_def
      GetOffsetOfRegionData_def plus_assign_def signal_table_bytes_def sizeof_uint32_t_def
      AlignToPageSize_def example_platform_def)

text \<open>
  C3, amended. \<open>ResizeRegion\<close> returns \<open>false\<close> and leaves the whole layout as it was
  whenever the named region does not exist, or the requested size, converted to
  \<open>uint32_t\<close> and rounded up to the page size, is smaller than the minimum size of the
  region.
\<close>

theorem ResizeRegion_rejects_after_alignment:
  assumes "region_idx_by_name L name = None \<or>
           (\<exists>index. region_idx_by_name L name = Some index \<and>
              (ucast (AlignToPageSize cfg (ucast new_min_size)) :: size_t)
                < GetMinRegionSize cfg (regions L ! index))"
  shows "ResizeRegion cfg L name new_min_size = Some (False, L)"
  using assms by (auto simp: ResizeRegion_def Let_def)

theorem ResizeRegion_rejects_after_alignment_witness:
  "region_idx_by_name layout_a ''b'' = None
   \<and> ResizeRegion example_platform layout_a ''b'' 0x2000 = Some (False, layout_a)
   \<and> region_idx_by_name layout_a ''a'' = Some 0
   \<and> (ucast (AlignToPageSize example_platform (ucast (0 :: size_t))) :: size_t)
        < GetMinRegionSize example_platform (regions layout_a ! 0)
   \<and> ResizeRegion example_platform layout_a ''a'' 0 = Some (False, layout_a)"
proof -
  have 1: "region_idx_by_name layout_a ''b'' = None" by (simp add: layout_a_def)
  have 2: "region_idx_by_name layout_a ''a'' = Some 0" by (simp add: layout_a_def)
  have 3: "(ucast (AlignToPageSize example_platform (ucast (0 :: size_t))) :: size_t)
        < GetMinRegionSize example_platform (regions layout_a ! 0)"
    by (simp add: layout_a_def example_region_def GetMinRegionSize_def
      GetOffsetOfRegionData_def plus_assign_def signal_table_bytes_def sizeof_uint32_t_def
      AlignToPageSize_def example_platform_def)
  show ?thesis
    using ResizeRegion_rejects_after_alignment [of layout_a "''b''" example_platform "0x2000"]
      ResizeRegion_rejects_after_alignment [of layout_a "''a''" example_platform 0]
      1 2 3 by simp
qed

text \<open>
  C4. A \<open>ResizeRegion\<close> of region \<open>k\<close> that returns \<open>true\<close> keeps the number of regions and
  the name map, keeps every region before \<open>k\<close> as it was, keeps the begin offset of region
  \<open>k\<close> and changes at most its size, and changes at most the begin offset of every region
  after \<open>k\<close>. (The device size is the only other field of the layout.)
\<close>

theorem ResizeRegion_frame:
  assumes "ResizeRegion cfg L name new_min_size = Some (True, L')"
    and "region_idx_by_name L name = Some k" and "k < length (regions L)"
  shows "length (regions L') = length (regions L)
       \<and> region_idx_by_name L' = region_idx_by_name L
       \<and> (\<forall>i<k. regions L' ! i = regions L ! i)
       \<and> begin_offset (regions L' ! k) = begin_offset (regions L ! k)
       \<and> (\<exists>s. regions L' ! k = (regions L ! k)\<lparr>region_size := s\<rparr>)
       \<and> (\<forall>i. k < i \<and> i < length (regions L) \<longrightarrow>
             (\<exists>b. regions L' ! i = (regions L ! i)\<lparr>begin_offset := b\<rparr>))"
proof -
  let ?new = "ucast (AlignToPageSize cfg (ucast new_min_size)) :: size_t"
  let ?off = "plus_assign (begin_offset (regions L ! k)) ?new"
  let ?A = "take k (regions L)" and ?r = "(regions L ! k)\<lparr>region_size := ?new\<rparr>"
  let ?B = "drop (k + 1) (regions L)"
  from assms(1) obtain k' d where "region_idx_by_name L name = Some k'"
    and L'0: "L' = L\<lparr>regions :=
              take (k' + 1) ((regions L)[k' := (regions L ! k')\<lparr>region_size := ?new\<rparr>])
              @ assign_offsets (drop (k' + 1) (regions L)) (plus_assign (begin_offset (regions L ! k')) ?new),
            device_size := d\<rparr>"
    by (rule ResizeRegion_TrueE)
  with assms(2) have "k' = k" by simp
  with L'0 assms(3) have rs': "regions L' = ?A @ ?r # assign_offsets ?B ?off"
    and idx: "region_idx_by_name L' = region_idx_by_name L"
    by (simp_all add: take_Suc_update)
  have lenA: "length ?A = k" using assms(3) by simp
  have len: "length (regions L') = length (regions L)"
    unfolding rs' using assms(3) by simp
  have pre: "\<forall>i<k. regions L' ! i = regions L ! i"
    unfolding rs' using lenA by (simp add: nth_append)
  have at_k: "regions L' ! k = ?r"
    unfolding rs' using lenA by (simp add: nth_append)
  have post: "\<exists>b. regions L' ! i = (regions L ! i)\<lparr>begin_offset := b\<rparr>"
    if i: "k < i \<and> i < length (regions L)" for i
  proof -
    from i have j: "i - (k + 1) < length ?B" by (simp, arith)
    have "regions L' ! i = assign_offsets ?B ?off ! (i - (k + 1))"
      unfolding rs' using i lenA by (simp add: nth_append)
    moreover from assign_offsets_nth [OF j, of ?off]
    obtain b where "assign_offsets ?B ?off ! (i - (k + 1)) = (?B ! (i - (k + 1)))\<lparr>begin_offset := b\<rparr>"
      by blast
    moreover have "?B ! (i - (k + 1)) = regions L ! i" using i by simp
    ultimately show ?thesis by auto
  qed
  show ?thesis
    using len idx pre at_k post by auto
qed

theorem ResizeRegion_frame_witness:
  "ResizeRegion example_platform layout_ab ''a'' 0x2000 = Some (True, layout_ab_resized)
   \<and> region_idx_by_name layout_ab ''a'' = Some 0
   \<and> 0 < length (regions layout_ab)
   \<and> length (regions layout_ab_resized) = length (regions layout_ab)
   \<and> region_idx_by_name layout_ab_resized = region_idx_by_name layout_ab
   \<and> begin_offset (regions layout_ab_resized ! 0) = begin_offset (regions layout_ab ! 0)
   \<and> (\<exists>s. regions layout_ab_resized ! 0 = (regions layout_ab ! 0)\<lparr>region_size := s\<rparr>)
   \<and> (\<exists>b. regions layout_ab_resized ! 1 = (regions layout_ab ! 1)\<lparr>begin_offset := b\<rparr>)"
proof -
  have 1: "region_idx_by_name layout_ab ''a'' = Some 0" by (simp add: layout_ab_def)
  have 2: "0 < length (regions layout_ab)" "0 < (1::nat) \<and> 1 < length (regions layout_ab)"
    by (simp_all add: layout_ab_def)
  from ResizeRegion_frame [OF resize_ab_grow 1 2(1)] resize_ab_grow 1 2 show ?thesis
    by blast
qed

text \<open>
  C5, as stated, fails for the same wrap-around as C2: resizing the only region \<open>a\<close>, which
  begins at \<open>0x1000\<close>, to \<open>0xFFFFF000\<close> bytes returns \<open>true\<close> and sets the device size to 1,
  below the end offset \<open>2^32\<close> of the region.
\<close>

theorem device_size_counterexample:
  "reachable example_platform layout_a
   \<and> ResizeRegion example_platform layout_a ''a'' 0xFFFFF000 = Some (True, layout_a_wrapped)
   \<and> GetMemoryFileSize layout_a_wrapped = 1
   \<and> \<not> unat (begin_offset (last (regions layout_a_wrapped)))
           + unat (region_size (last (regions layout_a_wrapped)))
         \<le> unat (GetMemoryFileSize layout_a_wrapped)"
  using reachable_layout_a resize_a_wrap
  by (simp add: layout_a_wrapped_def example_region_def GetMemoryFileSize_def)

text \<open>
  C5, amended. For every layout with a region that the constructor returns, or that a
  \<open>ResizeRegion\<close> returning \<open>true\<close> leaves, the device size is a power of two, and the
  smallest one that is not below the end offset of the last region taken modulo \<open>2^32\<close>
  (the end offset itself whenever begin offset plus size is below \<open>2^32\<close>).
\<close>

theorem device_size_smallest_power_of_two:
  assumes "reachable cfg L" and "regions L \<noteq> []"
  shows "\<exists>m\<le>31. unat (GetMemoryFileSize L) = 2 ^ m
           \<and> (unat (begin_offset (last (regions L))) + unat (region_size (last (regions L)))) mod 2 ^ 32
                 \<le> 2 ^ m
           \<and> (\<forall>j. (unat (begin_offset (last (regions L))) + unat (region_size (last (regions L))))
                    mod 2 ^ 32 \<le> 2 ^ j \<longrightarrow> (2::nat) ^ m \<le> 2 ^ j)"
proof -
  let ?start = "first_offset cfg (length (regions L))"
  let ?e = "end_offset (regions L) ?start"
  from assms(1) have inv: "layout_inv cfg L" by (rule reachable_inv)
  then have a: "assign_offsets (regions L) ?start = regions L"
    and d: "AlignToPowerOf2 ?e = Some (device_size L)"
    by (simp_all add: layout_inv_def)
  have e: "unat ?e = (unat (begin_offset (last (regions L))) + unat (region_size (last (regions L)))) mod 2 ^ 32"
    by (simp only: assigned_end [OF a assms(2)] unat_plus_assign)
  have "\<not> 2 ^ 31 < unat ?e"
    using d AlignToPowerOf2_None [of ?e] by auto
  then have "unat ?e \<le> 2 ^ 31" by simp
  then obtain m where m: "m \<le> 31" "AlignToPowerOf2 ?e = Some (2 ^ m)" "unat ?e \<le> 2 ^ m"
    "\<forall>j. unat ?e \<le> 2 ^ j \<longrightarrow> (2::nat) ^ m \<le> 2 ^ j"
    using AlignToPowerOf2_Some [of ?e] by blast
  from m(2) d have "device_size L = 2 ^ m" by simp
  then have "unat (GetMemoryFileSize L) = 2 ^ m"
    using m(1) by (simp add: GetMemoryFileSize_def unat_pow2_32)
  then show ?thesis using m(1,3,4) unfolding e by blast
qed

theorem device_size_smallest_power_of_two_witness:
  "reachable example_platform layout_ab
   \<and> regions layout_ab \<noteq> []
   \<and> (\<exists>m\<le>31. unat (GetMemoryFileSize layout_ab) = 2 ^ m
           \<and> (unat (begin_offset (last (regions layout_ab)))
               + unat (region_size (last (regions layout_ab)))) mod 2 ^ 32 \<le> 2 ^ m
           \<and> (\<forall>j. (unat (begin_offset (last (regions layout_ab)))
                     + unat (region_size (last (regions layout_ab)))) mod 2 ^ 32 \<le> 2 ^ j
                  \<longrightarrow> (2::nat) ^ m \<le> 2 ^ j))"
proof -
  have n: "regions layout_ab \<noteq> []" by (simp add: layout_ab_def)
  from device_size_smallest_power_of_two [OF reachable_layout_ab n] reachable_layout_ab n
  show ?thesis by blast
qed

text \<open>
  C6, as stated, fails in the end offset, for the same wrap-around as C2: the end offset
  is a 32-bit field. In the layout of \<open>a\<close> and \<open>b\<close> with \<open>a\<close> resized to \<open>0xFFFFF000\<close> bytes,
  region \<open>a\<close> begins at \<open>0x1000\<close>, and \<open>WriteLayout\<close> writes 0 as its end offset, not
  \<open>2^32\<close>.
\<close>

theorem WriteLayout_end_offset_counterexample:
  "reachable example_platform layout_ab_wrapped
   \<and> WriteLayout example_platform layout_ab_wrapped example_memory = Inr memory_ab_wrapped
   \<and> region_end_offset (region_descriptions memory_ab_wrapped ! 0) = 0
   \<and> unat (region_end_offset (region_descriptions memory_ab_wrapped ! 0))
       \<noteq> unat (begin_offset (regions layout_ab_wrapped ! 0))
         + unat (region_size (regions layout_ab_wrapped ! 0))"
  using reachable.resized [OF reachable_layout_ab resize_ab] WriteLayout_ab_wrapped
  by (simp add: memory_ab_wrapped_def layout_ab_wrapped_def example_region_def)

text \<open>
  C6, amended. \<open>WriteLayout\<close> on a memory with room for the descriptors, for a layout whose
  \<open>managed_by\<close> names are all keys of the name map (so it is for every layout a process
  can hold, \<open>reachable_managers_known\<close>).
  If the manager of some region has the index \<open>VSOC_REGION_WHOLE\<close>, the call is fatal.
  Otherwise it writes the header (major and minor version, device size, region count,
  and the size of the header as the offset of the descriptor table) and, for every region
  in declaration order, a descriptor whose begin offset is the region's, whose end offset
  is begin offset plus region size modulo \<open>2^32\<close> (the sum itself whenever it is below
  \<open>2^32\<close>), whose data offset is the signal-table overhead \<open>4 * 2^g + 4 * 2^h + 8\<close> in
  \<open>uint32_t\<close> arithmetic, and whose \<open>managed_by\<close> is the index of the manager, or
  \<open>VSOC_REGION_WHOLE\<close> when the region has none.
\<close>

theorem WriteLayout_header_and_descriptors:
  assumes "length (regions L) \<le> length (region_descriptions mem)"
    and "\<forall>r\<in>set (regions L). \<forall>m. managed_by r = Some m \<longrightarrow> region_idx_by_name L m \<noteq> None"
  shows "if \<exists>r\<in>set (regions L). \<exists>m. managed_by r = Some m
              \<and> region_idx_by_name L m = Some (VSOC_REGION_WHOLE cfg)
         then \<exists>n m. WriteLayout cfg L mem = Inl (OwnerIsRegionWhole n m)
         else \<exists>mem'. WriteLayout cfg L mem = Inr mem'
              \<and> major_version (header mem') = CURRENT_VSOC_LAYOUT_MAJOR_VERSION cfg
              \<and> minor_version (header mem') = CURRENT_VSOC_LAYOUT_MINOR_VERSION cfg
              \<and> size_field (header mem') = GetMemoryFileSize L
              \<and> region_count (header mem') = length (regions L)
              \<and> vsoc_region_desc_offset (header mem') = sizeof_vsoc_shm_layout_descriptor cfg
              \<and> length (region_descriptions mem') = length (region_descriptions mem)
              \<and> (\<forall>i<length (regions L).
                    region_begin_offset (region_descriptions mem' ! i) = begin_offset (regions L ! i)
                  \<and> unat (region_end_offset (region_descriptions mem' ! i))
                      = (unat (begin_offset (regions L ! i)) + unat (region_size (regions L ! i)))
                          mod 2 ^ 32
                  \<and> offset_of_region_data (region_descriptions mem' ! i)
                      = GetOffsetOfRegionData (regions L ! i)
                  \<and> GetOffsetOfRegionData (regions L ! i)
                      = 4 * 2 ^ guest_to_host_signal_table_log_size (regions L ! i)
                        + 4 * 2 ^ host_to_guest_signal_table_log_size (regions L ! i) + 8
                  \<and> device_name (region_descriptions mem' ! i)
                      = take (VSOC_DEVICE_NAME_SZ cfg - 1) (region_name (regions L ! i))
                  \<and> (managed_by (regions L ! i) = None \<longrightarrow>
                       managed_by_field (region_descriptions mem' ! i) = VSOC_REGION_WHOLE cfg)
                  \<and> (\<forall>m k. managed_by (regions L ! i) = Some m \<and> region_idx_by_name L m = Some k \<longrightarrow>
                       managed_by_field (region_descriptions mem' ! i) = k))"
proof (cases "\<exists>r\<in>set (regions L). \<exists>m. managed_by r = Some m
              \<and> region_idx_by_name L m = Some (VSOC_REGION_WHOLE cfg)")
  case True
  then obtain i m where i: "i < length (regions L)" "managed_by (regions L ! i) = Some m"
    "region_idx_by_name L m = Some (VSOC_REGION_WHOLE cfg)"
    by (auto simp: in_set_conv_nth)
  have res: "\<forall>j<length (regions L). \<forall>m. managed_by (regions L ! j) = Some m \<longrightarrow> region_idx_by_name L m \<noteq> None"
    using assms(2) nth_mem by blast
  from WriteLayout_loop_fatal [OF _ i res, of 0 "region_descriptions mem"]
  obtain n m' where "WriteLayout_loop cfg L (region_descriptions mem) 0 = Inl (OwnerIsRegionWhole n m')"
    by auto
  then have "WriteLayout cfg L mem = Inl (OwnerIsRegionWhole n m')"
    by (simp add: WriteLayout_def Let_def)
  then show ?thesis using True by auto
next
  case False
  then have ok: "\<forall>i. 0 \<le> i \<and> i < length (regions L) \<longrightarrow>
             (\<forall>m. managed_by (regions L ! i) = Some m \<longrightarrow>
                (\<exists>k. region_idx_by_name L m = Some k \<and> k \<noteq> VSOC_REGION_WHOLE cfg))"
    using assms(2) by (metis nth_mem option.exhaust)
  from WriteLayout_loop_ok [OF ok assms(1)] obtain descs' where
    r: "WriteLayout_loop cfg L (region_descriptions mem) 0 = Inr descs'"
    and l: "length descs' = length (region_descriptions mem)"
    and d: "\<forall>i. 0 \<le> i \<and> i < length (regions L) \<longrightarrow>
              descs' ! i = (written_description cfg (region_descriptions mem ! i) (regions L ! i))
                \<lparr>managed_by_field :=
                   (case managed_by (regions L ! i) of
                      None \<Rightarrow> VSOC_REGION_WHOLE cfg
                    | Some m \<Rightarrow> the (region_idx_by_name L m))\<rparr>"
    by blast
  let ?mem = "\<lparr>header = (header mem)\<lparr>major_version := CURRENT_VSOC_LAYOUT_MAJOR_VERSION cfg,
                  minor_version := CURRENT_VSOC_LAYOUT_MINOR_VERSION cfg,
                  size_field := GetMemoryFileSize L, region_count := length (regions L),
                  vsoc_region_desc_offset := sizeof_vsoc_shm_layout_descriptor cfg\<rparr>,
               region_descriptions = descs'\<rparr>"
  have w: "WriteLayout cfg L mem = Inr ?mem"
    using r by (simp add: WriteLayout_def Let_def)
  have "\<exists>mem'. WriteLayout cfg L mem = Inr mem'
              \<and> major_version (header mem') = CURRENT_VSOC_LAYOUT_MAJOR_VERSION cfg
              \<and> minor_version (header mem') = CURRENT_VSOC_LAYOUT_MINOR_VERSION cfg
              \<and> size_field (header mem') = GetMemoryFileSize L
              \<and> region_count (header mem') = length (regions L)
              \<and> vsoc_region_desc_offset (header mem') = sizeof_vsoc_shm_layout_descriptor cfg
              \<and> length (region_descriptions mem') = length (region_descriptions mem)
              \<and> (\<forall>i<length (regions L).
                    region_begin_offset (region_descriptions mem' ! i) = begin_offset (regions L ! i)
                  \<and> unat (region_end_offset (region_descriptions mem' ! i))
                      = (unat (begin_offset (regions L ! i)) + unat (region_size (regions L ! i)))
                          mod 2 ^ 32
                  \<and> offset_of_region_data (region_descriptions mem' ! i)
                      = GetOffsetOfRegionData (regions L ! i)
                  \<and> GetOffsetOfRegionData (regions L ! i)
                      = 4 * 2 ^ guest_to_host_signal_table_log_size (regions L ! i)
                        + 4 * 2 ^ host_to_guest_signal_table_log_size (regions L ! i) + 8
                  \<and> device_name (region_descriptions mem' ! i)
                      = take (VSOC_DEVICE_NAME_SZ cfg - 1) (region_name (regions L ! i))
                  \<and> (managed_by (regions L ! i) = None \<longrightarrow>
                       managed_by_field (region_descriptions mem' ! i) = VSOC_REGION_WHOLE cfg)
                  \<and> (\<forall>m k. managed_by (regions L ! i) = Some m \<and> region_idx_by_name L m = Some k \<longrightarrow>
                       managed_by_field (region_descriptions mem' ! i) = k))"
    apply (rule exI [of _ ?mem])
    apply (simp add: w l d written_description_fields unat_end_offset)
    apply (auto simp: GetOffsetOfRegionData_eq [symmetric])
    done
  then show ?thesis using False by (simp only: if_False)
qed

theorem WriteLayout_header_and_descriptors_witness:
  "length (regions layout_a_managed_by_b) \<le> length (region_descriptions example_memory)
   \<and> (\<exists>mem'. WriteLayout example_platform layout_a_managed_by_b example_memory = Inr mem'
         \<and> size_field (header mem') = 0x4000
         \<and> region_count (header mem') = 2
         \<and> unat (region_end_offset (region_descriptions mem' ! 0)) = 0x2000
         \<and> managed_by_field (region_descriptions mem' ! 0) = 1
         \<and> managed_by_field (region_descriptions mem' ! 1) = VSOC_REGION_WHOLE example_platform)
   \<and> length (regions layout_b_managed_by_a) \<le> length (region_descriptions example_memory)
   \<and> managed_by (regions layout_b_managed_by_a ! 1) = Some ''a''
   \<and> region_idx_by_name layout_b_managed_by_a ''a'' = Some (VSOC_REGION_WHOLE example_platform)
   \<and> (\<exists>n m. WriteLayout example_platform layout_b_managed_by_a example_memory
               = Inl (OwnerIsRegionWhole n m))"
proof -
  have 1: "length (regions layout_a_managed_by_b) \<le> length (region_descriptions example_memory)"
    by (simp add: layout_a_managed_by_b_def example_memory_def)
  have 2: "\<forall>r\<in>set (regions layout_a_managed_by_b). \<forall>m. managed_by r = Some m \<longrightarrow>
         region_idx_by_name layout_a_managed_by_b m \<noteq> None"
    by (simp add: layout_a_managed_by_b_def example_region_def)
  have 3: "\<not> (\<exists>r\<in>set (regions layout_a_managed_by_b). \<exists>m. managed_by r = Some m
              \<and> region_idx_by_name layout_a_managed_by_b m = Some (VSOC_REGION_WHOLE example_platform))"
    by (simp add: layout_a_managed_by_b_def example_region_def example_platform_def)
  have 4: "length (regions layout_b_managed_by_a) \<le> length (region_descriptions example_memory)"
    by (simp add: layout_b_managed_by_a_def example_memory_def)
  have 5: "\<forall>r\<in>set (regions layout_b_managed_by_a). \<forall>m. managed_by r = Some m \<longrightarrow>
         region_idx_by_name layout_b_managed_by_a m \<noteq> None"
    by (simp add: layout_b_managed_by_a_def example_region_def)
  have 6: "\<exists>r\<in>set (regions layout_b_managed_by_a). \<exists>m. managed_by r = Some m
              \<and> region_idx_by_name layout_b_managed_by_a m = Some (VSOC_REGION_WHOLE example_platform)"
    by (simp add: layout_b_managed_by_a_def example_region_def example_platform_def)
  from WriteLayout_header_and_descriptors [OF 1 2, of example_platform] 3
  obtain mem' where m: "WriteLayout example_platform layout_a_managed_by_b example_memory = Inr mem'"
    "size_field (header mem') = GetMemoryFileSize layout_a_managed_by_b"
    "region_count (header mem') = length (regions layout_a_managed_by_b)"
    "\<forall>i<length (regions layout_a_managed_by_b).
        unat (region_end_offset (region_descriptions mem' ! i))
          = (unat (begin_offset (regions layout_a_managed_by_b ! i))
             + unat (region_size (regions layout_a_managed_by_b ! i))) mod 2 ^ 32
      \<and> (managed_by (regions layout_a_managed_by_b ! i) = None \<longrightarrow>
           managed_by_field (region_descriptions mem' ! i) = VSOC_REGION_WHOLE example_platform)
      \<and> (\<forall>m k. managed_by (regions layout_a_managed_by_b ! i) = Some m
                \<and> region_idx_by_name layout_a_managed_by_b m = Some k \<longrightarrow>
           managed_by_field (region_descriptions mem' ! i) = k)"
    by (simp only: if_False) blast
  have a: "size_field (header mem') = 0x4000" "region_count (header mem') = 2"
    using m(2,3) by (simp_all add: GetMemoryFileSize_def layout_a_managed_by_b_def)
  have b: "unat (region_end_offset (region_descriptions mem' ! 0)) = 0x2000"
    "managed_by_field (region_descriptions mem' ! 0) = 1"
    using m(4) [rule_format, of 0] by (simp_all add: layout_a_managed_by_b_def example_region_def)
  have c: "managed_by_field (region_descriptions mem' ! 1) = VSOC_REGION_WHOLE example_platform"
    using m(4) [rule_format, of 1] by (simp add: layout_a_managed_by_b_def example_region_def)
  from WriteLayout_header_and_descriptors [OF 4 5, of example_platform] 6
  have d: "\<exists>n m. WriteLayout example_platform layout_b_managed_by_a example_memory
               = Inl (OwnerIsRegionWhole n m)"
    by (simp only: if_True)
  have e: "managed_by (regions layout_b_managed_by_a ! 1) = Some ''a''"
    "region_idx_by_name layout_b_managed_by_a ''a'' = Some (VSOC_REGION_WHOLE example_platform)"
    by (simp_all add: layout_b_managed_by_a_def example_region_def example_platform_def)
  from 1 4 m(1) a b c d e show ?thesis by blast
qed

text \<open>
  C7. The claim: every packet that is not the end-of-stream packet has its whole payload
  written, or the socket failed and the loop stops. \<open>SendAll\<close> gives up on a packet when
  \<open>Send\<close> answers 0 as it does when \<open>Send\<close> answers a negative value, but \<open>ShmToSocket\<close>
  leaves its loop only on a negative result. (On a socket where every \<open>Send\<close> takes at
  least one byte the claim holds, \<open>ShmToSocket_all_written\<close>, and a negative result ends
  the loop, \<open>ShmToSocket_stops_on_error\<close>.) Evaluated here: the first \<open>Send\<close> answers 0;
  the bytes 1, 2 of the first packet never reach the socket, the loop goes on, the bytes
  3, 4 of the second packet are written, and the end-of-stream packet ends the loop and
  shuts the socket down for writing.
\<close>

theorem ShmToSocket_drops_payload_when_Send_answers_zero:
  "ShmToSocket example_socket example_packets
     = (Returned, Some (example_socket\<lparr>sent := [3, 4], send_calls := 2, shut_wr := True\<rparr>))"
  by (simp add: ShmToSocket_def example_packets_def example_data_packet_def
      example_next_packet_def example_socket_def
      IsEnd_def SendAll_def SendAll_loop.simps payload_length_def IsOpen_def Send_def
      SocketSender_dtor_def Shutdown_SHUT_WR_def)

text \<open>
  C8. \<open>OpenSocketConnection\<close> returns only an open descriptor, namely the first open one
  that \<open>SocketLocalClient\<close> delivers, after one \<open>sleep(1)\<close> per failed attempt; however
  many attempts fail first, it returns once one succeeds; and if none ever succeeds it
  never returns. It has no other outcome: a failed attempt neither ends the process nor
  is reported.
\<close>

theorem OpenSocketConnection_retries_until_open:
  "(\<forall>sock slept. OpenSocketConnection dial port = Some (sock, slept) \<longrightarrow>
       IsOpen sock \<and>
       (\<exists>k. sock = dial port k \<and> slept = replicate k 1 \<and> (\<forall>i<k. \<not> IsOpen (dial port i))))
   \<and> (\<forall>k. (\<forall>i<k. \<not> IsOpen (dial port i)) \<and> IsOpen (dial port k) \<longrightarrow>
          OpenSocketConnection dial port = Some (dial port k, replicate k 1))
   \<and> ((\<forall>i. \<not> IsOpen (dial port i)) \<longrightarrow> OpenSocketConnection dial port = None)"
proof (intro conjI allI impI)
  fix sock slept
  assume "OpenSocketConnection dial port = Some (sock, slept)"
  then have s: "OpenSocketConnection_loop dial port 0 [] = Some (sock, slept)"
    by (simp add: OpenSocketConnection_def)
  from OpenSocketConnection_loop_Some [OF s]
  obtain k where k: "sock = dial port k" "slept = replicate k 1" "IsOpen (dial port k)"
    "\<forall>i<k. \<not> IsOpen (dial port i)"
    by auto
  then show "IsOpen sock" by simp
  from k show "\<exists>k. sock = dial port k \<and> slept = replicate k 1 \<and> (\<forall>i<k. \<not> IsOpen (dial port i))"
    by blast
next
  fix k
  assume "(\<forall>i<k. \<not> IsOpen (dial port i)) \<and> IsOpen (dial port k)"
  then show "OpenSocketConnection dial port = Some (dial port k, replicate k 1)"
    using OpenSocketConnection_loop_returns [of k dial port 0 "[]"]
    by (simp add: OpenSocketConnection_def)
next
  assume never: "\<forall>i. \<not> IsOpen (dial port i)"
  show "OpenSocketConnection dial port = None"
  proof (cases "OpenSocketConnection dial port")
    case None
    then show ?thesis .
  next
    case (Some y)
    then have "OpenSocketConnection_loop dial port 0 [] = Some y"
      by (simp add: OpenSocketConnection_def)
    from OpenSocketConnection_loop_Some [OF this] never show ?thesis by blast
  qed
qed

theorem OpenSocketConnection_retries_until_open_witness:
  "\<not> IsOpen (dial_open_from_3 5555 0) \<and> \<not> IsOpen (dial_open_from_3 5555 1)
   \<and> \<not> IsOpen (dial_open_from_3 5555 2) \<and> IsOpen (dial_open_from_3 5555 3)
   \<and> OpenSocketConnection dial_open_from_3 5555 = Some (dial_open_from_3 5555 3, [1, 1, 1])
   \<and> (\<forall>i. \<not> IsOpen (dial_never_open 5555 i))
   \<and> OpenSocketConnection dial_never_open 5555 = None"
proof -
  have 1: "(\<forall>i<3. \<not> IsOpen (dial_open_from_3 5555 i)) \<and> IsOpen (dial_open_from_3 5555 3)"
    by (simp add: dial_open_from_3_def IsOpen_def)
  have 2: "\<forall>i. \<not> IsOpen (dial_never_open 5555 i)"
    by (simp add: dial_never_open_def IsOpen_def)
  have r: "replicate 3 (1::nat) = [1, 1, 1]" by (simp add: numeral_3_eq_3)
  from OpenSocketConnection_retries_until_open [of dial_open_from_3 5555] 1
  have "OpenSocketConnection dial_open_from_3 5555 = Some (dial_open_from_3 5555 3, replicate 3 1)"
    by blast
  moreover from OpenSocketConnection_retries_until_open [of dial_never_open 5555] 2
  have "OpenSocketConnection dial_never_open 5555 = None"
    by blast
  ultimately show ?thesis using 1 2 r by simp
qed

text \<open>
  C9. \<open>AlignToPowerOf2\<close> returns for every input up to \<open>2^31\<close>, and then returns the
  smallest power of two that is not below the input (1 for the input 0). For an input
  above \<open>2^31\<close> the doubling wraps to 0 and the call never returns. So
  \<open>UpdateRegionOffsetsAndDeviceSize\<close>, with which the constructor and \<open>ResizeRegion\<close> end,
  returns exactly when the offset after the last region is at most \<open>2^31\<close>.
\<close>

theorem AlignToPowerOf2_returns_iff:
  "(unat val \<le> 2 ^ 31 \<longrightarrow>
      (\<exists>m\<le>31. \<exists>p. AlignToPowerOf2 val = Some p \<and> unat p = 2 ^ m \<and> unat val \<le> 2 ^ m
         \<and> (\<forall>j. unat val \<le> 2 ^ j \<longrightarrow> (2::nat) ^ m \<le> 2 ^ j)))
   \<and> (val = 0 \<longrightarrow> AlignToPowerOf2 val = Some 1)
   \<and> (2 ^ 31 < unat val \<longrightarrow> AlignToPowerOf2 val = None)
   \<and> (UpdateRegionOffsetsAndDeviceSize L offset index = None
        \<longleftrightarrow> 2 ^ 31 < unat (snd (UpdateRegionOffsets_loop (regions L) offset index)))"
proof (intro conjI impI)
  assume "unat val \<le> 2 ^ 31"
  then obtain m where m: "m \<le> 31" "AlignToPowerOf2 val = Some (2 ^ m)" "unat val \<le> 2 ^ m"
    "\<forall>j. unat val \<le> 2 ^ j \<longrightarrow> (2::nat) ^ m \<le> 2 ^ j"
    using AlignToPowerOf2_Some [of val] by blast
  have "unat ((2::32 word) ^ m) = 2 ^ m" using m(1) by (rule unat_pow2_32)
  then show "\<exists>m\<le>31. \<exists>p. AlignToPowerOf2 val = Some p \<and> unat p = 2 ^ m \<and> unat val \<le> 2 ^ m
         \<and> (\<forall>j. unat val \<le> 2 ^ j \<longrightarrow> (2::nat) ^ m \<le> 2 ^ j)"
    using m by blast
next
  assume "val = 0"
  then show "AlignToPowerOf2 val = Some 1"
    unfolding AlignToPowerOf2_def by (subst AlignToPowerOf2_loop.simps) simp
next
  assume "2 ^ 31 < unat val"
  then show "AlignToPowerOf2 val = None" by (rule AlignToPowerOf2_None)
next
  obtain rs off where loop: "UpdateRegionOffsets_loop (regions L) offset index = (rs, off)"
    by (cases "UpdateRegionOffsets_loop (regions L) offset index")
  show "UpdateRegionOffsetsAndDeviceSize L offset index = None
        \<longleftrightarrow> 2 ^ 31 < unat (snd (UpdateRegionOffsets_loop (regions L) offset index))"
    using AlignToPowerOf2_None_iff [of off]
    by (cases "AlignToPowerOf2 off") (simp_all add: UpdateRegionOffsetsAndDeviceSize_def loop)
qed

theorem AlignToPowerOf2_returns_iff_witness:
  "unat (5 :: uint32_t) \<le> 2 ^ 31
   \<and> (\<exists>m\<le>31. \<exists>p. AlignToPowerOf2 5 = Some p \<and> unat p = 2 ^ m \<and> unat (5 :: uint32_t) \<le> 2 ^ m
         \<and> (\<forall>j. unat (5 :: uint32_t) \<le> 2 ^ j \<longrightarrow> (2::nat) ^ m \<le> 2 ^ j))
   \<and> AlignToPowerOf2 0 = Some 1
   \<and> 2 ^ 31 < unat (0x80000001 :: uint32_t)
   \<and> AlignToPowerOf2 0x80000001 = None"
  using AlignToPowerOf2_returns_iff [of 5] AlignToPowerOf2_returns_iff [of 0]
    AlignToPowerOf2_returns_iff [of "0x80000001"]
  by simp

text \<open>
  C10. If one of the calls of \<open>Send\<close> that \<open>SendAll\<close> makes for a packet answers 0, then
  \<open>SendAll\<close> returns 0 with only a proper prefix of the payload written to the socket.
  \<open>ShmToSocket\<close>, for a packet that is not the end-of-stream packet, then does not return
  and does not shut the socket down: it is in \<open>Recv\<close> again, with the socket as \<open>SendAll\<close>
  left it, and it handles the next received packet as it handles any packet, handing it
  to \<open>SendAll\<close> unless it is the end-of-stream packet.
\<close>

theorem SendAll_zero_continues_with_next_packet:
  assumes "\<exists>i. send_calls socket \<le> i \<and> i < send_calls (snd (SendAll socket packet))
             \<and> send_results socket i = 0"
    and "\<not> IsEnd packet"
  shows "fst (SendAll socket packet) = 0
       \<and> (\<exists>n<payload_length packet.
             sent (snd (SendAll socket packet)) = sent socket @ take n (payload packet))
       \<and> ShmToSocket_loop socket [packet] = (InRecv, snd (SendAll socket packet))
       \<and> ShmToSocket socket [packet] = (InRecv, Some (snd (SendAll socket packet)))
       \<and> ShmToSocket_loop socket [packet, next] =
           (if IsEnd next then (Returned, snd (SendAll socket packet))
            else if fst (SendAll (snd (SendAll socket packet)) next) < 0
            then (Returned, snd (SendAll (snd (SendAll socket packet)) next))
            else (InRecv, snd (SendAll (snd (SendAll socket packet)) next)))
       \<and> ShmToSocket_loop socket (packet # rest)
           = ShmToSocket_loop (snd (SendAll socket packet)) rest"
proof -
  obtain r s1 where sa: "SendAll socket packet = (r, s1)" by (cases "SendAll socket packet")
  have z: "fst (SendAll socket packet) = 0
       \<and> (\<exists>n<payload_length packet.
             sent (snd (SendAll socket packet)) = sent socket @ take n (payload packet))"
    unfolding SendAll_def
    using assms(1) by (intro SendAll_loop_zero) (simp_all add: SendAll_def)
  then have r: "r = 0" using sa by simp
  have step: "ShmToSocket_loop socket (packet # ps) = ShmToSocket_loop s1 ps" for ps
    using assms(2) sa r by simp
  have one: "ShmToSocket_loop socket [packet] = (InRecv, s1)"
    unfolding step by simp
  have top: "ShmToSocket socket [packet] = (InRecv, Some s1)"
    by (simp only: ShmToSocket_def one) simp
  have two: "ShmToSocket_loop socket [packet, next] =
           (if IsEnd next then (Returned, s1)
            else if fst (SendAll s1 next) < 0 then (Returned, snd (SendAll s1 next))
            else (InRecv, snd (SendAll s1 next)))"
    unfolding step by (cases "SendAll s1 next") simp
  show ?thesis
    using z one top two step [of rest] by (simp add: sa)
qed

theorem SendAll_zero_continues_with_next_packet_witness:
  "(\<exists>i. send_calls example_socket \<le> i
        \<and> i < send_calls (snd (SendAll example_socket example_data_packet))
        \<and> send_results example_socket i = 0)
   \<and> \<not> IsEnd example_data_packet
   \<and> fst (SendAll example_socket example_data_packet) = 0
   \<and> sent (snd (SendAll example_socket example_data_packet)) = []
   \<and> ShmToSocket_loop example_socket [example_data_packet]
       = (InRecv, example_socket\<lparr>send_calls := 1\<rparr>)
   \<and> ShmToSocket example_socket [example_data_packet]
       = (InRecv, Some (example_socket\<lparr>send_calls := 1\<rparr>))
   \<and> ShmToSocket_loop example_socket [example_data_packet, example_next_packet]
       = (InRecv, example_socket\<lparr>send_calls := 2, sent := [3, 4]\<rparr>)"
proof -
  have 1: "\<exists>i. send_calls example_socket \<le> i
        \<and> i < send_calls (snd (SendAll example_socket example_data_packet))
        \<and> send_results example_socket i = 0"
    by (rule exI [of _ 0]) (simp add: SendAll_example, simp add: example_socket_def)
  have 2: "\<not> IsEnd example_data_packet"
    by (simp add: IsEnd_def example_data_packet_def)
  have 3: "\<not> IsEnd example_next_packet"
    by (simp add: IsEnd_def example_next_packet_def)
  have 4: "sent (example_socket\<lparr>send_calls := 1\<rparr>) = []"
    by (simp add: example_socket_def)
  note t = SendAll_zero_continues_with_next_packet [OF 1 2, of example_next_packet "[]",
      unfolded SendAll_example fst_conv snd_conv SendAll_example_next]
  from t 1 2 3 4 show ?thesis
    by (simp add: SendAll_example)
qed

end
